theory Spec2Isabelle
  imports Complex_Main
begin

section \<open>Data model\<close>

text \<open>
  A process is the dictionary built by \<open>add_process\<close>: keys \<open>pid\<close>, \<open>cbt\<close> (burst time),
  \<open>at\<close> (arrival time, here \<open>at_time\<close>), \<open>remaining_time\<close>, \<open>waiting_time\<close>, \<open>turnaround_time\<close> and
  \<open>response_time\<close>.  HRRN adds the key \<open>response_ratio\<close>; \<open>None\<close> is the absent key.
  Burst, arrival, remaining time and the quantum are Python ints.  The context switch time
  is read with \<open>float\<close>, so the clock and the metrics derived from it are fractions; they
  are modelled as exact rationals.
\<close>

record process =
  pid :: string
  cbt :: int
  at_time :: int
  remaining_time :: int
  waiting_time :: rat
  turnaround_time :: rat
  response_time :: rat
  response_ratio :: "rat option"

datatype py_error = ValueError | ZeroDivisionError | IndexError

type_synonym interval = "string \<times> rat \<times> rat"

record metrics =
  avg_waiting_time :: rat
  avg_turnaround_time :: rat
  avg_response_time :: rat
  all_waiting_time :: "rat list"
  all_turnaround_time :: "rat list"
  all_response_time :: "rat list"

text \<open>
  The engines mutate the dictionaries they are handed and several lists alias the same
  dictionaries (\<open>processes\<close>, \<open>original_processes\<close>, \<open>process_queue\<close>, \<open>completed\<close>).
  The dictionaries are therefore kept in a store, numbered by their position in the
  caller's list at the time of the call, and every Python list of processes is a list of
  such numbers.  The record \<open>sim\<close> holds the store and the local variables of an engine.
\<close>

record sim =
  store :: "process list"
  processes :: "nat list"
  process_queue :: "nat list"
  completed :: "nat list"
  current_time :: rat
  gantt_data :: "interval list"
  total_waiting_time :: rat
  total_turnaround_time :: rat
  total_response_time :: rat
  waiting_times :: "rat list"
  turnaround_times :: "rat list"
  response_times :: "rat list"

text \<open>
  What a call of an engine leaves behind: the returned pair \<open>(gantt_data, metrics)\<close>, the
  dictionaries after the call (\<open>objects\<close>) and the caller's list after the call
  (\<open>caller_list\<close>, again as numbers of dictionaries).
\<close>

record outcome =
  gantt :: "interval list"
  result_metrics :: metrics
  objects :: "process list"
  caller_list :: "nat list"

definition init_sim :: "process list \<Rightarrow> sim" where
  "init_sim ps =
     \<lparr>store = ps, processes = [0..<length ps], process_queue = [], completed = [],
      current_time = 0, gantt_data = [],
      total_waiting_time = 0, total_turnaround_time = 0, total_response_time = 0,
      waiting_times = [], turnaround_times = [], response_times = []\<rparr>"

text \<open>
  The dictionary \<open>metrics\<close> built at the end of an engine; \<open>n\<close> is the divisor the engine
  uses.  Python's \<open>/\<close> raises \<open>ZeroDivisionError\<close> on a zero divisor.
\<close>

definition make_metrics :: "sim \<Rightarrow> nat \<Rightarrow> py_error + metrics" where
  "make_metrics s n =
     (if n = 0 then Inl ZeroDivisionError
      else Inr \<lparr>avg_waiting_time = total_waiting_time s / of_nat n,
                avg_turnaround_time = total_turnaround_time s / of_nat n,
                avg_response_time = total_response_time s / of_nat n,
                all_waiting_time = waiting_times s,
                all_turnaround_time = turnaround_times s,
                all_response_time = response_times s\<rparr>)"

definition finish :: "sim \<Rightarrow> nat list \<Rightarrow> py_error + metrics \<Rightarrow> py_error + outcome" where
  "finish s cl m =
     (case m of
        Inl e \<Rightarrow> Inl e
      | Inr ms \<Rightarrow> Inr \<lparr>gantt = gantt_data s, result_metrics = ms,
                       objects = store s, caller_list = cl\<rparr>)"

text \<open>
  The block every engine runs when a process is finalized: the three totals grow, and the
  three lists are appended to.  As in the source, the turnaround time is appended to
  \<open>all_response_time\<close> and the response time to \<open>all_turnaround_time\<close>.
\<close>

definition account :: "process \<Rightarrow> sim \<Rightarrow> sim" where
  "account p s =
     s\<lparr>total_waiting_time := total_waiting_time s + waiting_time p,
       waiting_times := waiting_times s @ [waiting_time p],
       total_turnaround_time := total_turnaround_time s + turnaround_time p,
       response_times := response_times s @ [turnaround_time p],
       total_response_time := total_response_time s + response_time p,
       turnaround_times := turnaround_times s @ [response_time p]\<rparr>"

definition set_response :: "rat \<Rightarrow> process \<Rightarrow> process" where
  "set_response t p =
     (if response_time p = - 1 then p\<lparr>response_time := t - of_int (at_time p)\<rparr> else p)"

definition mean :: "rat list \<Rightarrow> rat" where
  "mean xs = sum_list xs / of_nat (length xs)"

section \<open>Python primitives\<close>

text \<open>
  \<open>min(xs, key=f)\<close> and \<open>max(xs, key=f)\<close> keep the first element whose key is extremal:
  the running best is replaced only on a strictly smaller (larger) key.  The first
  argument after the key is the head of the list, the running best to start with.
\<close>

fun py_min :: "('a \<Rightarrow> 'k::linorder) \<Rightarrow> 'a \<Rightarrow> 'a list \<Rightarrow> 'a" where
  "py_min key best [] = best"
| "py_min key best (x # xs) = (if key x < key best then py_min key x xs else py_min key best xs)"

fun py_max :: "('a \<Rightarrow> 'k::linorder) \<Rightarrow> 'a \<Rightarrow> 'a list \<Rightarrow> 'a" where
  "py_max key best [] = best"
| "py_max key best (x # xs) = (if key best < key x then py_max key x xs else py_max key best xs)"

text \<open>
  \<open>xs.remove(v)\<close> deletes the first element equal to \<open>v\<close>; dictionaries are compared by
  value.  \<open>None\<close> stands for the \<open>ValueError\<close> raised when there is no such element.
\<close>

fun list_remove :: "process list \<Rightarrow> process \<Rightarrow> nat list \<Rightarrow> nat list option" where
  "list_remove st v [] = None"
| "list_remove st v (r # rs) =
     (if st ! r = v then Some rs else map_option ((#) r) (list_remove st v rs))"

text \<open>
  A \<open>while\<close> loop whose body may raise.  The loop returns \<open>None\<close> when it runs forever,
  \<open>Some (Inl e)\<close> when the body raises \<open>e\<close>, and \<open>Some (Inr s)\<close> when it ends in state \<open>s\<close>.
\<close>

partial_function (option) py_while ::
  "('s \<Rightarrow> bool) \<Rightarrow> ('s \<Rightarrow> py_error + 's) \<Rightarrow> 's \<Rightarrow> (py_error + 's) option" where
  "py_while b c s =
     (if b s then (case c s of Inl e \<Rightarrow> Some (Inl e) | Inr s' \<Rightarrow> py_while b c s')
      else Some (Inr s))"

declare py_while.simps [code]

section \<open>The non-preemptive engines: FCFS, SPN, HRRN\<close>

text \<open>
  The block the three engines share: the selected process \<open>r\<close> gets its response time if
  it has none, runs from the current time for its whole burst, gets its waiting and
  turnaround time, is accounted for, and the clock moves to the end of the burst plus the
  context switch time.
\<close>

definition dispatch :: "rat \<Rightarrow> nat \<Rightarrow> sim \<Rightarrow> sim" where
  "dispatch cs r s =
     (let p = store s ! r;
          p1 = set_response (current_time s) p;
          start_time = current_time s;
          end_time = current_time s + of_int (cbt p1);
          p2 = p1\<lparr>waiting_time := start_time - of_int (at_time p1),
                  turnaround_time := end_time - of_int (at_time p1)\<rparr>
      in account p2
           (s\<lparr>store := (store s)[r := p2],
              gantt_data := gantt_data s @ [(pid p2, start_time, end_time)],
              current_time := end_time + cs\<rparr>))"

text \<open>
  FCFS: \<open>processes.sort(key=lambda x: x['at'])\<close> is a stable sort of the caller's list, in
  place; the loop then waits for each process in turn and dispatches it.
\<close>

definition fcfs_body :: "rat \<Rightarrow> nat \<Rightarrow> sim \<Rightarrow> sim" where
  "fcfs_body cs r s =
     (let a = of_int (at_time (store s ! r))
      in dispatch cs r (if current_time s < a then s\<lparr>current_time := a\<rparr> else s))"

definition fcfs_scheduling :: "process list \<Rightarrow> rat \<Rightarrow> (py_error + outcome) option" where
  "fcfs_scheduling ps cs =
     (let sorted_list = sort_key (\<lambda>r. at_time (ps ! r)) [0..<length ps];
          s = fold (fcfs_body cs) sorted_list ((init_sim ps)\<lparr>processes := sorted_list\<rparr>)
      in Some (finish s sorted_list (make_metrics s (length sorted_list))))"

text \<open>The processes that have arrived: \<open>[p for p in processes if p['at'] <= current_time]\<close>.\<close>

definition eligible :: "sim \<Rightarrow> nat list" where
  "eligible s = filter (\<lambda>r. of_int (at_time (store s ! r)) \<le> current_time s) (processes s)"

text \<open>What an engine returns after its loop; \<open>n\<close> is the divisor of the averages.\<close>

definition after_loop :: "nat \<Rightarrow> (py_error + sim) option \<Rightarrow> (py_error + outcome) option" where
  "after_loop n r =
     (case r of
        None \<Rightarrow> None
      | Some (Inl e) \<Rightarrow> Some (Inl e)
      | Some (Inr s) \<Rightarrow> Some (finish s (processes s) (make_metrics s n)))"

text \<open>The loop condition \<open>while processes\<close> of SPN and HRRN.\<close>

definition pending :: "sim \<Rightarrow> bool" where
  "pending s = (processes s \<noteq> [])"

text \<open>SPN: the first eligible process of smallest burst time is removed and dispatched.\<close>

definition spn_body :: "rat \<Rightarrow> sim \<Rightarrow> py_error + sim" where
  "spn_body cs s =
     (case eligible s of
        [] \<Rightarrow> Inr (s\<lparr>current_time := current_time s + 1\<rparr>)
      | e # es \<Rightarrow>
          (let selected = py_min (\<lambda>r. cbt (store s ! r)) e es
           in case list_remove (store s) (store s ! selected) (processes s) of
                None \<Rightarrow> Inl ValueError
              | Some rest \<Rightarrow> Inr (dispatch cs selected (s\<lparr>processes := rest\<rparr>))))"

definition spn_scheduling :: "process list \<Rightarrow> rat \<Rightarrow> (py_error + outcome) option" where
  "spn_scheduling ps cs = after_loop (length ps) (py_while pending (spn_body cs) (init_sim ps))"

text \<open>
  HRRN: every eligible process gets the key \<open>response_ratio\<close>, a true division by its
  burst time, and the first eligible process of largest ratio is removed and dispatched.
  The key read by \<open>max\<close> is present on every eligible process, since the loop before has
  just set it.
\<close>

fun set_ratios :: "rat \<Rightarrow> nat list \<Rightarrow> process list \<Rightarrow> py_error + process list" where
  "set_ratios t [] st = Inr st"
| "set_ratios t (r # rs) st =
     (let p = st ! r; waiting = t - of_int (at_time p)
      in if cbt p = 0 then Inl ZeroDivisionError
         else set_ratios t rs
                (st[r := p\<lparr>response_ratio := Some ((waiting + of_int (cbt p)) / of_int (cbt p))\<rparr>]))"

definition ratio_key :: "process \<Rightarrow> rat" where
  "ratio_key p = (case response_ratio p of None \<Rightarrow> 0 | Some q \<Rightarrow> q)"

definition hrrn_body :: "rat \<Rightarrow> sim \<Rightarrow> py_error + sim" where
  "hrrn_body cs s =
     (case eligible s of
        [] \<Rightarrow> Inr (s\<lparr>current_time := current_time s + 1\<rparr>)
      | e # es \<Rightarrow>
          (case set_ratios (current_time s) (e # es) (store s) of
             Inl err \<Rightarrow> Inl err
           | Inr st \<Rightarrow>
               (let selected = py_max (\<lambda>r. ratio_key (st ! r)) e es
                in case list_remove st (st ! selected) (processes s) of
                     None \<Rightarrow> Inl ValueError
                   | Some rest \<Rightarrow> Inr (dispatch cs selected (s\<lparr>store := st, processes := rest\<rparr>)))))"

definition hrrn_scheduling :: "process list \<Rightarrow> rat \<Rightarrow> (py_error + outcome) option" where
  "hrrn_scheduling ps cs = after_loop (length ps) (py_while pending (hrrn_body cs) (init_sim ps))"

section \<open>The preemptive engines: RR, SRTF\<close>

text \<open>
  One slice of at most \<open>time_quantum\<close> for process \<open>r\<close>: response time if it has none, an
  interval on the chart, the remaining time reduced, the clock moved to the end of the
  slice plus the context switch time.
\<close>

definition run_slice :: "rat \<Rightarrow> int \<Rightarrow> nat \<Rightarrow> sim \<Rightarrow> sim" where
  "run_slice cs time_quantum r s =
     (let p = store s ! r;
          p1 = set_response (current_time s) p;
          execution_time = min time_quantum (remaining_time p1);
          start_time = current_time s;
          end_time = current_time s + of_int execution_time;
          p2 = p1\<lparr>remaining_time := remaining_time p1 - execution_time\<rparr>
      in s\<lparr>store := (store s)[r := p2],
           gantt_data := gantt_data s @ [(pid p2, start_time, end_time)],
           current_time := end_time + cs\<rparr>)"

text \<open>
  Finalizing process \<open>r\<close> in RR and SRTF: the turnaround time is taken from the clock as
  \<open>run_slice\<close> left it, and the waiting time from the turnaround time.
\<close>

definition finalize :: "nat \<Rightarrow> sim \<Rightarrow> sim" where
  "finalize r s =
     (let p = store s ! r;
          p1 = p\<lparr>turnaround_time := current_time s - of_int (at_time p)\<rparr>;
          p2 = p1\<lparr>waiting_time := turnaround_time p1 - of_int (cbt p1)\<rparr>
      in account p2 (s\<lparr>store := (store s)[r := p2]\<rparr>))"

text \<open>
  RR, the block "add newly arrived processes": the head of the pending list \<open>processes\<close>
  moves to the queue as long as it has arrived.
\<close>

definition admit :: "sim \<Rightarrow> sim" where
  "admit s =
     (let arrived = (\<lambda>r. of_int (at_time (store s ! r)) \<le> current_time s)
      in s\<lparr>process_queue := process_queue s @ takeWhile arrived (processes s),
           processes := dropWhile arrived (processes s)\<rparr>)"

definition rr_body :: "rat \<Rightarrow> int \<Rightarrow> sim \<Rightarrow> py_error + sim" where
  "rr_body cs time_quantum s =
     (let s1 = (case (process_queue s, processes s) of
                  ([], r # rs) \<Rightarrow>
                     s\<lparr>current_time := of_int (at_time (store s ! r)),
                       process_queue := [r], processes := rs\<rparr>
                | _ \<Rightarrow> s)
      in case process_queue s1 of
           [] \<Rightarrow> Inl IndexError
         | current_process # rest \<Rightarrow>
             (let s2 = run_slice cs time_quantum current_process (s1\<lparr>process_queue := rest\<rparr>);
                  s3 = admit s2
              in if remaining_time (store s3 ! current_process) > 0
                 then Inr (s3\<lparr>process_queue := process_queue s3 @ [current_process]\<rparr>)
                 else Inr (finalize current_process s3)))"

text \<open>
  RR checks the quantum first.  \<open>setdefault\<close> changes nothing, the keys being present.
  The queue starts with the processes that have arrived at time 0, the others are
  pending; both keep the order of the caller's list, which the engine neither sorts nor
  changes (it rebinds its local name \<open>processes\<close>).  The averages are 0 for no process.
\<close>

definition rr_metrics :: "sim \<Rightarrow> nat \<Rightarrow> metrics" where
  "rr_metrics s n =
     \<lparr>avg_waiting_time = (if n > 0 then total_waiting_time s / of_nat n else 0),
      avg_turnaround_time = (if n > 0 then total_turnaround_time s / of_nat n else 0),
      avg_response_time = (if n > 0 then total_response_time s / of_nat n else 0),
      all_waiting_time = waiting_times s,
      all_turnaround_time = turnaround_times s,
      all_response_time = response_times s\<rparr>"

definition rr_start :: "process list \<Rightarrow> sim" where
  "rr_start ps =
     (init_sim ps)
       \<lparr>process_queue := filter (\<lambda>r. at_time (ps ! r) \<le> 0) [0..<length ps],
        processes := filter (\<lambda>r. at_time (ps ! r) > 0) [0..<length ps]\<rparr>"

definition rr_cond :: "sim \<Rightarrow> bool" where
  "rr_cond s = (process_queue s \<noteq> [] \<or> processes s \<noteq> [])"

definition rr_scheduling :: "process list \<Rightarrow> rat \<Rightarrow> int \<Rightarrow> (py_error + outcome) option" where
  "rr_scheduling ps cs time_quantum =
     (if time_quantum \<le> 0 then Some (Inl ValueError)
      else case py_while rr_cond (rr_body cs time_quantum) (rr_start ps) of
             None \<Rightarrow> None
           | Some (Inl e) \<Rightarrow> Some (Inl e)
           | Some (Inr s) \<Rightarrow>
               Some (finish s [0..<length ps] (Inr (rr_metrics s (length ps)))))"

text \<open>
  SRTF: no check of the quantum.  When nothing is eligible the clock jumps to the smallest
  arrival time in \<open>processes\<close>; \<open>min\<close> of no value raises \<open>ValueError\<close>.  Otherwise the first
  eligible process of smallest remaining time runs a slice and, if nothing remains of
  it, is finalized, appended to \<open>completed\<close> and removed from \<open>processes\<close>.
\<close>

definition srtf_body :: "rat \<Rightarrow> int \<Rightarrow> sim \<Rightarrow> py_error + sim" where
  "srtf_body cs time_quantum s =
     (case eligible s of
        [] \<Rightarrow>
          (case processes s of
             [] \<Rightarrow> Inl ValueError
           | r # rs \<Rightarrow>
               Inr (s\<lparr>current_time :=
                         of_int (py_min (\<lambda>a. a) (at_time (store s ! r))
                                   (map (\<lambda>r'. at_time (store s ! r')) rs))\<rparr>))
      | e # es \<Rightarrow>
          (let selected = py_min (\<lambda>r. remaining_time (store s ! r)) e es;
               s1 = run_slice cs time_quantum selected s
           in if remaining_time (store s1 ! selected) = 0
              then (let s2 = finalize selected s1;
                        s3 = s2\<lparr>completed := completed s2 @ [selected]\<rparr>
                    in case list_remove (store s3) (store s3 ! selected) (processes s3) of
                         None \<Rightarrow> Inl ValueError
                       | Some rest \<Rightarrow> Inr (s3\<lparr>processes := rest\<rparr>))
              else Inr s1))"

definition srtf_cond :: "sim \<Rightarrow> bool" where
  "srtf_cond s =
     (processes s \<noteq> [] \<or> list_ex (\<lambda>r. remaining_time (store s ! r) > 0) (completed s))"

definition srtf_scheduling :: "process list \<Rightarrow> rat \<Rightarrow> int \<Rightarrow> (py_error + outcome) option" where
  "srtf_scheduling ps cs time_quantum =
     after_loop (length ps) (py_while srtf_cond (srtf_body cs time_quantum) (init_sim ps))"

text \<open>A process as \<open>add_process\<close> creates it.\<close>

definition new_process :: "string \<Rightarrow> int \<Rightarrow> int \<Rightarrow> process" where
  "new_process name burst arrival =
     \<lparr>pid = name, cbt = burst, at_time = arrival, remaining_time = burst,
      waiting_time = 0, turnaround_time = 0, response_time = - 1, response_ratio = None\<rparr>"

text \<open>The processes of the scenario given with the testable properties.\<close>

definition scenario :: "process list" where
  "scenario = [new_process ''P1'' 5 0, new_process ''P2'' 3 1, new_process ''P3'' 8 2]"

text \<open>The response ratio of a process at time \<open>t\<close>: waiting so far plus burst, over burst.\<close>

definition ratio_at :: "rat \<Rightarrow> process \<Rightarrow> rat" where
  "ratio_at t p = (t - of_int (at_time p) + of_int (cbt p)) / of_int (cbt p)"

text \<open>
  The selection rules as the specification words them, to compare with what the engines
  select.  SPN: among the eligible processes the smallest burst time, then the earliest
  arrival, then the input order.  HRRN: the largest response ratio, then the smallest
  burst time, then the earliest arrival.  A process is the claimed choice when it is
  eligible and no eligible process comes before it in this order.
\<close>

definition spn_before :: "process list \<Rightarrow> nat \<Rightarrow> nat \<Rightarrow> bool" where
  "spn_before st r r' =
     (cbt (st ! r) < cbt (st ! r') \<or>
      (cbt (st ! r) = cbt (st ! r') \<and>
       (at_time (st ! r) < at_time (st ! r') \<or>
        (at_time (st ! r) = at_time (st ! r') \<and> r < r'))))"

definition claimed_spn_choice :: "sim \<Rightarrow> nat \<Rightarrow> bool" where
  "claimed_spn_choice s r =
     (r \<in> set (eligible s) \<and> \<not> list_ex (\<lambda>r'. spn_before (store s) r' r) (eligible s))"

definition hrrn_before :: "rat \<Rightarrow> process list \<Rightarrow> nat \<Rightarrow> nat \<Rightarrow> bool" where
  "hrrn_before t st r r' =
     (ratio_at t (st ! r') < ratio_at t (st ! r) \<or>
      (ratio_at t (st ! r') = ratio_at t (st ! r) \<and>
       (cbt (st ! r) < cbt (st ! r') \<or>
        (cbt (st ! r) = cbt (st ! r') \<and> at_time (st ! r) < at_time (st ! r')))))"

definition claimed_hrrn_choice :: "sim \<Rightarrow> nat \<Rightarrow> bool" where
  "claimed_hrrn_choice s r =
     (r \<in> set (eligible s) \<and>
      \<not> list_ex (\<lambda>r'. hrrn_before (current_time s) (store s) r' r) (eligible s))"

text \<open>
  Two inputs with a tie.  For SPN: L (burst 1, arrival 0), A (burst 2, arrival 1) and
  B (burst 2, arrival 0), and the state of the engine after L has run, at time 1, where
  A and B are eligible.  For HRRN: A (burst 4) and B (burst 2), both arriving at 0.
\<close>

definition spn_tie :: "process list" where
  "spn_tie = [new_process ''L'' 1 0, new_process ''A'' 2 1, new_process ''B'' 2 0]"

definition spn_tie_after_L :: sim where
  "spn_tie_after_L = dispatch 0 0 ((init_sim spn_tie)\<lparr>processes := [1, 2]\<rparr>)"

definition hrrn_tie :: "process list" where
  "hrrn_tie = [new_process ''A'' 4 0, new_process ''B'' 2 0]"

text \<open>
  State \<open>s'\<close> is state \<open>s\<close> after process \<open>r\<close> has run one more interval of length \<open>len\<close>
  from the current time and has been finalized, the turnaround time being taken at the
  end of the interval plus \<open>extra\<close> and the waiting time being the turnaround time less
  the burst.
\<close>

definition slice_finalized :: "sim \<Rightarrow> nat \<Rightarrow> int \<Rightarrow> rat \<Rightarrow> sim \<Rightarrow> bool" where
  "slice_finalized s r len extra s' =
     (gantt_data s' =
        gantt_data s @ [(pid (store s ! r), current_time s, current_time s + of_int len)] \<and>
      turnaround_time (store s' ! r) =
        current_time s + of_int len + extra - of_int (at_time (store s ! r)) \<and>
      waiting_time (store s' ! r) = turnaround_time (store s' ! r) - of_int (cbt (store s ! r)))"

text \<open>
  The rule of RR for new arrivals as the specification words it: after a slice, no
  process that has arrived by the clock is left in the pending list \<open>processes\<close>.  The
  input \<open>rr_unsorted\<close> is X (arrival 10), Y (arrival 1) and Z (arrival 0), each of burst 1,
  entered in this order.
\<close>

definition arrivals_admitted :: "sim \<Rightarrow> bool" where
  "arrivals_admitted s =
     (\<not> list_ex (\<lambda>r. of_int (at_time (store s ! r)) \<le> current_time s) (processes s))"

definition rr_unsorted :: "process list" where
  "rr_unsorted = [new_process ''X'' 1 10, new_process ''Y'' 1 1, new_process ''Z'' 1 0]"

text \<open>
  The property of the averages: an engine returns a result in which each average is the
  mean of the list returned under the same name.
\<close>

definition averages_are_means :: "(py_error + outcome) option \<Rightarrow> bool" where
  "averages_are_means r =
     (case r of
        Some (Inr out) \<Rightarrow>
          avg_waiting_time (result_metrics out) = mean (all_waiting_time (result_metrics out)) \<and>
          avg_turnaround_time (result_metrics out) = mean (all_turnaround_time (result_metrics out)) \<and>
          avg_response_time (result_metrics out) = mean (all_response_time (result_metrics out))
      | _ \<Rightarrow> False)"

section \<open>Properties of processes and of runs\<close>

text \<open>
  Valid input: each process is as \<open>add_process\<close> creates it, with a positive burst time,
  an arrival time that is not negative, and the whole burst remaining.
\<close>

definition valid_process :: "process \<Rightarrow> bool" where
  "valid_process p = (0 < cbt p \<and> 0 \<le> at_time p \<and> remaining_time p = cbt p)"

definition valid_input :: "process list \<Rightarrow> bool" where
  "valid_input ps = list_all valid_process ps"

text \<open>The metrics of a process are consistent: turnaround time minus waiting time is the burst time.\<close>

definition consistent :: "process \<Rightarrow> bool" where
  "consistent p = (turnaround_time p - waiting_time p = of_int (cbt p))"

text \<open>The dictionaries \<open>st\<close> have the ids, burst times and arrival times of \<open>ps\<close>, one for one.\<close>

definition same_static :: "process list \<Rightarrow> process list \<Rightarrow> bool" where
  "same_static ps st =
     (map pid st = map pid ps \<and> map cbt st = map cbt ps \<and> map at_time st = map at_time ps)"

text \<open>The caller's list as the caller finds it after the call.\<close>

definition list_after :: "outcome \<Rightarrow> process list" where
  "list_after out = map (\<lambda>r. objects out ! r) (caller_list out)"

text \<open>
  The invariant of the loops, for the dictionaries \<open>st\<close> and the numbers \<open>live\<close> of the
  processes still to be finalized: the static keys are those of the input, \<open>live\<close> has
  no number twice and only numbers of dictionaries, and every dictionary that is not
  live is consistent.
\<close>

definition tracked :: "process list \<Rightarrow> nat list \<Rightarrow> process list \<Rightarrow> bool" where
  "tracked ps live st =
     (same_static ps st \<and> distinct live \<and> (\<forall>r\<in>set live. r < length ps) \<and>
      (\<forall>i<length ps. i \<notin> set live \<longrightarrow> consistent (st ! i)))"

text \<open>A dictionary without the key \<open>response_ratio\<close>, to compare all the other keys at once.\<close>

definition plain :: "process \<Rightarrow> process" where
  "plain p = p\<lparr>response_ratio := None\<rparr>"

text \<open>
  The work left: the sum of the remaining times.  The invariants of the two preemptive
  loops add to \<open>tracked\<close> that every live process has work left and, for SRTF, that a
  completed process is no longer in \<open>processes\<close> and has none; the measure of SRTF counts
  the work twice and one more for a state in which nothing is eligible.
\<close>

definition work :: "process list \<Rightarrow> nat" where
  "work st = sum_list (map (\<lambda>p. nat (remaining_time p)) st)"

definition rr_inv :: "process list \<Rightarrow> sim \<Rightarrow> bool" where
  "rr_inv ps s =
     (tracked ps (process_queue s @ processes s) (store s) \<and>
      (\<forall>r\<in>set (process_queue s @ processes s). 0 < remaining_time (store s ! r)))"

definition srtf_inv :: "process list \<Rightarrow> sim \<Rightarrow> bool" where
  "srtf_inv ps s =
     (tracked ps (processes s) (store s) \<and>
      (\<forall>r\<in>set (processes s). 0 < remaining_time (store s ! r)) \<and>
      (\<forall>r\<in>set (completed s). r \<notin> set (processes s) \<and> remaining_time (store s ! r) \<le> 0))"

definition srtf_measure :: "sim \<Rightarrow> nat" where
  "srtf_measure s = 2 * work (store s) + (if eligible s = [] then 1 else 0)"

text \<open>
  Four properties of what an engine returns.  \<open>metrics_consistent\<close>: it returns, and in
  every dictionary turnaround time minus waiting time is the burst time the process came
  with.  \<open>division_error\<close>: it raises \<open>ZeroDivisionError\<close>.  \<open>returns_metrics\<close>: it returns
  its pair without raising.  \<open>left_behind\<close>: it returns, the dictionaries have the ids,
  burst times and arrival times they came with, and the caller's list holds the
  dictionaries numbered \<open>cl\<close>, in this order.
\<close>

definition metrics_consistent :: "process list \<Rightarrow> (py_error + outcome) option \<Rightarrow> bool" where
  "metrics_consistent ps r =
     (case r of
        Some (Inr out) \<Rightarrow>
          list_all2 (\<lambda>p0 p. turnaround_time p - waiting_time p = of_int (cbt p0)) ps (objects out)
      | _ \<Rightarrow> False)"

definition division_error :: "(py_error + outcome) option \<Rightarrow> bool" where
  "division_error r = (r = Some (Inl ZeroDivisionError))"

definition returns_metrics :: "(py_error + outcome) option \<Rightarrow> bool" where
  "returns_metrics r = (case r of Some (Inr out) \<Rightarrow> True | _ \<Rightarrow> False)"

definition left_behind :: "process list \<Rightarrow> nat list \<Rightarrow> (py_error + outcome) option \<Rightarrow> bool" where
  "left_behind ps cl r =
     (case r of
        Some (Inr out) \<Rightarrow> same_static ps (objects out) \<and> caller_list out = cl
      | _ \<Rightarrow> False)"

section \<open>Loops and selection\<close>

text \<open>
  Three rules for \<open>py_while\<close>: an invariant holds at the end of a loop that returns, a
  loop whose body never raises and decreases a well-founded order returns, and a loop
  whose condition and body keep an invariant forever does not return.
\<close>

lemma py_while_rule:
  fixes s :: 'a
  assumes res: "py_while b c s = Some (Inr t)"
    and init: "I s"
    and step: "\<And>s s'. I s \<Longrightarrow> b s \<Longrightarrow> c s = Inr s' \<Longrightarrow> I s'"
  shows "I t \<and> \<not> b t"
proof -
  define P where
    "P = (\<lambda>b' c' s0 (y :: py_error + 'a). b' = b \<longrightarrow> c' = c \<longrightarrow> I s0 \<longrightarrow>
            (\<forall>t. y = Inr t \<longrightarrow> I t \<and> \<not> b t))"
  have "P b c s (Inr t)"
  proof (rule py_while.raw_induct[where P = P, OF _ res])
    fix pw b' c' s0 y
    assume IH: "\<And>b c s y. pw b c s = Some y \<Longrightarrow> P b c s y"
      and eq: "(if b' s0 then case c' s0 of Inl e \<Rightarrow> Some (Inl e) | Inr s' \<Rightarrow> pw b' c' s'
                else Some (Inr s0)) = Some y"
    show "P b' c' s0 y"
      unfolding P_def
    proof (intro impI allI)
      fix t assume bc: "b' = b" "c' = c" and inv: "I s0" and y: "y = Inr t"
      show "I t \<and> \<not> b t"
      proof (cases "b s0")
        case False
        with eq bc y inv show ?thesis by simp
      next
        case True
        show ?thesis
        proof (cases "c s0")
          case (Inl e)
          with eq bc y True show ?thesis by simp
        next
          case (Inr s')
          with eq bc True have "pw b c s' = Some y" by simp
          from IH[OF this] step[OF inv True Inr] y show ?thesis by (simp add: P_def)
        qed
      qed
    qed
  qed
  with init show ?thesis by (simp add: P_def)
qed

lemma py_while_terminates:
  assumes wf: "wf R"
    and init: "I s"
    and step: "\<And>s. I s \<Longrightarrow> b s \<Longrightarrow> \<exists>s'. c s = Inr s' \<and> I s' \<and> (s', s) \<in> R"
  shows "\<exists>t. py_while b c s = Some (Inr t)"
  using wf init
proof (induction s rule: wf_induct_rule)
  case (less s)
  show ?case
  proof (cases "b s")
    case False
    then show ?thesis by (subst py_while.simps) simp
  next
    case True
    from step[OF less.prems True] obtain s' where s': "c s = Inr s'" "I s'" "(s', s) \<in> R"
      by blast
    from less.IH[OF s'(3) s'(2)] obtain t where "py_while b c s' = Some (Inr t)" by blast
    with True s'(1) show ?thesis by (subst py_while.simps) simp
  qed
qed

lemma py_while_diverges:
  fixes s :: 'a
  assumes init: "I s"
    and step: "\<And>s. I s \<Longrightarrow> b s \<and> (\<exists>s'. c s = Inr s' \<and> I s')"
  shows "py_while b c s = None"
proof (cases "py_while b c s")
  case None
  then show ?thesis .
next
  case (Some y)
  define P where "P = (\<lambda>b' c' s0 (y :: py_error + 'a). b' = b \<longrightarrow> c' = c \<longrightarrow> \<not> I s0)"
  have "P b c s y"
  proof (rule py_while.raw_induct[where P = P, OF _ Some])
    fix pw b' c' s0 y
    assume IH: "\<And>b c s y. pw b c s = Some y \<Longrightarrow> P b c s y"
      and eq: "(if b' s0 then case c' s0 of Inl e \<Rightarrow> Some (Inl e) | Inr s' \<Rightarrow> pw b' c' s'
                else Some (Inr s0)) = Some y"
    show "P b' c' s0 y"
      unfolding P_def
    proof (intro impI notI)
      assume bc: "b' = b" "c' = c" and inv: "I s0"
      from step[OF inv] obtain s' where s': "b s0" "c s0 = Inr s'" "I s'" by blast
      with eq bc have "pw b c s' = Some y" by simp
      from IH[OF this] s'(3) show False by (simp add: P_def)
    qed
  qed
  with init show ?thesis by (simp add: P_def)
qed

lemma py_min_split:
  "\<exists>ys zs. b # xs = ys @ py_min key b xs # zs \<and>
     (\<forall>y\<in>set ys. key (py_min key b xs) < key y) \<and>
     (\<forall>z\<in>set zs. key (py_min key b xs) \<le> key z)"
proof (induction xs arbitrary: b)
  case Nil
  show ?case by (rule exI[of _ "[]"]) simp
next
  case (Cons x xs)
  show ?case
  proof (cases "key x < key b")
    case True
    define m where "m = py_min key x xs"
    have sel: "py_min key b (x # xs) = m" using True by (simp add: m_def)
    from Cons.IH[of x] obtain ys zs where s: "x # xs = ys @ m # zs"
      "\<forall>y\<in>set ys. key m < key y" "\<forall>z\<in>set zs. key m \<le> key z"
      unfolding m_def by blast
    have "key m \<le> key x"
      using s by (cases ys) auto
    with True have "key m < key b" by simp
    with s(2) have "\<forall>y\<in>set (b # ys). key m < key y" by simp
    moreover have "b # x # xs = (b # ys) @ m # zs" using s(1) by simp
    ultimately show ?thesis unfolding sel using s(3) by blast
  next
    case False
    define m where "m = py_min key b xs"
    have sel: "py_min key b (x # xs) = m" using False by (simp add: m_def)
    from Cons.IH[of b] obtain ys zs where s: "b # xs = ys @ m # zs"
      "\<forall>y\<in>set ys. key m < key y" "\<forall>z\<in>set zs. key m \<le> key z"
      unfolding m_def by blast
    show ?thesis
    proof (cases ys)
      case Nil
      with s have "m = b" "zs = xs" by simp_all
      with s(3) False have "b # x # xs = [] @ m # (x # xs)" "\<forall>z\<in>set (x # xs). key m \<le> key z"
        by auto
      then show ?thesis unfolding sel by (metis empty_iff list.set(1))
    next
      case (Cons y ys')
      with s have yb: "y = b" and xs: "xs = ys' @ m # zs" by simp_all
      have "key m < key x"
        using s(2) Cons yb False by auto
      with s(2) have "\<forall>y\<in>set (b # x # ys'). key m < key y" using Cons yb by auto
      moreover have "b # x # xs = (b # x # ys') @ m # zs" using xs by simp
      ultimately show ?thesis unfolding sel using s(3) by blast
    qed
  qed
qed

lemma py_max_as_min:
  fixes key :: "'a \<Rightarrow> rat"
  shows "py_max key b xs = py_min (\<lambda>x. - key x) b xs"
  by (induction xs arbitrary: b) auto

lemma list_remove_split:
  "\<forall>u\<in>set us. st ! u \<noteq> st ! sel \<Longrightarrow> list_remove st (st ! sel) (us @ sel # vs) = Some (us @ vs)"
  by (induction us) auto

section \<open>The invariant of the engines\<close>

lemma map_update_same: "f p = f (st ! r) \<Longrightarrow> map f (st[r := p]) = map f st"
  by (cases "r < length st") (simp_all add: map_update list_update_same_conv list_update_beyond)

lemma same_static_update:
  assumes "same_static ps st" "pid p = pid (st ! r)" "cbt p = cbt (st ! r)"
    "at_time p = at_time (st ! r)"
  shows "same_static ps (st[r := p])"
  using assms by (simp add: same_static_def map_update_same)

lemma same_static_length: "same_static ps st \<Longrightarrow> length st = length ps"
  unfolding same_static_def by (metis length_map)

lemma same_static_nth:
  assumes "same_static ps st" "i < length ps"
  shows "pid (st ! i) = pid (ps ! i)" "cbt (st ! i) = cbt (ps ! i)" "at_time (st ! i) = at_time (ps ! i)"
proof -
  have l: "i < length st" using assms by (simp add: same_static_length)
  have "map pid st ! i = map pid ps ! i" "map cbt st ! i = map cbt ps ! i"
    "map at_time st ! i = map at_time ps ! i"
    using assms(1) by (simp_all add: same_static_def)
  then show "pid (st ! i) = pid (ps ! i)" "cbt (st ! i) = cbt (ps ! i)" "at_time (st ! i) = at_time (ps ! i)"
    using l assms(2) by simp_all
qed

lemma same_static_refl: "same_static ps ps"
  by (simp add: same_static_def)

lemma tracked_init: "tracked ps [0..<length ps] ps"
  by (simp add: tracked_def same_static_refl)

lemma tracked_update:
  assumes t: "tracked ps live st"
    and sel: "sel \<in> set live"
    and st: "pid p = pid (st ! sel)" "cbt p = cbt (st ! sel)" "at_time p = at_time (st ! sel)"
    and live': "distinct live'" "set live' \<subseteq> set live" "set live \<subseteq> insert sel (set live')"
    and fin: "sel \<notin> set live' \<Longrightarrow> consistent p"
  shows "tracked ps live' (st[sel := p])"
proof -
  have len: "length st = length ps" using t by (simp add: tracked_def same_static_length)
  have b: "sel < length st" using t sel len by (simp add: tracked_def)
  have "consistent (st[sel := p] ! i)" if "i < length ps" "i \<notin> set live'" for i
  proof (cases "i = sel")
    case True
    with that fin b show ?thesis by simp
  next
    case False
    with that live'(3) have "i \<notin> set live" by auto
    with t that False show ?thesis by (simp add: tracked_def)
  qed
  moreover have "same_static ps (st[sel := p])"
    using t st by (simp add: tracked_def same_static_update)
  moreover have "\<forall>r\<in>set live'. r < length ps" using t live'(2) by (auto simp: tracked_def)
  ultimately show ?thesis using live'(1) by (simp add: tracked_def)
qed

lemma tracked_all_consistent:
  assumes "tracked ps [] st"
  shows "list_all consistent st"
proof -
  have "length st = length ps" using assms by (simp add: tracked_def same_static_length)
  with assms show ?thesis by (simp add: tracked_def list_all_length)
qed

lemma dispatch_fields:
  "processes (dispatch cs r s) = processes s"
  "process_queue (dispatch cs r s) = process_queue s"
  "completed (dispatch cs r s) = completed s"
  "current_time (dispatch cs r s) = current_time s + of_int (cbt (store s ! r)) + cs"
  "gantt_data (dispatch cs r s) =
     gantt_data s @ [(pid (store s ! r), current_time s, current_time s + of_int (cbt (store s ! r)))]"
  by (simp_all add: dispatch_def account_def set_response_def Let_def)

lemma dispatch_store:
  "\<exists>p. store (dispatch cs r s) = (store s)[r := p] \<and> consistent p \<and>
       pid p = pid (store s ! r) \<and> cbt p = cbt (store s ! r) \<and> at_time p = at_time (store s ! r) \<and>
       remaining_time p = remaining_time (store s ! r) \<and>
       turnaround_time p = current_time s + of_int (cbt (store s ! r)) - of_int (at_time (store s ! r))"
  by (rule exI[of _ "(set_response (current_time s) (store s ! r))
        \<lparr>waiting_time := current_time s - of_int (at_time (store s ! r)),
         turnaround_time := current_time s + of_int (cbt (store s ! r)) - of_int (at_time (store s ! r))\<rparr>"])
     (simp add: dispatch_def account_def set_response_def Let_def consistent_def)

text \<open>
  Selection and removal: \<open>min\<close> over the filtered list followed by \<open>remove\<close> takes out
  the selected process itself, since every equal dictionary standing before it would
  have been selected in its place.
\<close>

lemma filter_eq_appendD:
  "filter P xs = ys @ zs \<Longrightarrow> \<exists>us vs. xs = us @ vs \<and> filter P us = ys \<and> filter P vs = zs"
proof (induction ys arbitrary: xs)
  case Nil
  then show ?case by (intro exI[of _ "[]"] exI[of _ xs]) simp
next
  case (Cons y ys)
  then have "filter P xs = y # (ys @ zs)" by simp
  then obtain us0 vs0 where x: "xs = us0 @ y # vs0" "\<forall>u\<in>set us0. \<not> P u" "P y"
    "ys @ zs = filter P vs0"
    by (auto simp: filter_eq_Cons_iff)
  from Cons.IH[OF x(4)[symmetric]] obtain us1 vs1 where
    y: "vs0 = us1 @ vs1" "filter P us1 = ys" "filter P vs1 = zs" by blast
  have "xs = (us0 @ y # us1) @ vs1" using x(1) y(1) by simp
  moreover have "filter P (us0 @ y # us1) = y # ys" using x(2,3) y(2) by simp
  ultimately show ?case using y(3) by blast
qed

lemma select_remove:
  assumes f: "filter P procs = e # es"
    and val: "\<And>r r'. r \<in> set procs \<Longrightarrow> r' \<in> set procs \<Longrightarrow> st ! r = st ! r' \<Longrightarrow>
                P r = P r' \<and> key r = key r'"
  shows "\<exists>us vs. procs = us @ py_min key e es # vs \<and>
           list_remove st (st ! py_min key e es) procs = Some (us @ vs) \<and>
           P (py_min key e es) \<and>
           (\<forall>r\<in>set us. P r \<longrightarrow> key (py_min key e es) < key r) \<and>
           (\<forall>r\<in>set vs. P r \<longrightarrow> key (py_min key e es) \<le> key r)"
proof -
  define sel where "sel = py_min key e es"
  from py_min_split[of e es key] obtain ys zs where s: "e # es = ys @ sel # zs"
    "\<forall>y\<in>set ys. key sel < key y" "\<forall>z\<in>set zs. key sel \<le> key z"
    unfolding sel_def by blast
  from f s(1) have "filter P procs = ys @ sel # zs" by simp
  then obtain us rest where u: "procs = us @ rest" "filter P us = ys" "filter P rest = sel # zs"
    by (auto dest: filter_eq_appendD)
  from u(3) obtain ws vs where v: "rest = ws @ sel # vs" "\<forall>w\<in>set ws. \<not> P w" "P sel" "zs = filter P vs"
    by (auto simp: filter_eq_Cons_iff)
  have before: "key sel < key r" if "r \<in> set (us @ ws)" "P r" for r
  proof -
    from that v(2) have "r \<in> set us" by auto
    with that(2) u(2) have "r \<in> set ys" by auto
    with s(2) show ?thesis by simp
  qed
  have procs: "procs = (us @ ws) @ sel # vs" using u(1) v(1) by simp
  have "st ! r \<noteq> st ! sel" if "r \<in> set (us @ ws)" for r
  proof
    assume eq: "st ! r = st ! sel"
    have "r \<in> set procs" "sel \<in> set procs" using that procs by auto
    from val[OF this eq] v(3) have "P r" "key r = key sel" by simp_all
    with before[OF that] show False by simp
  qed
  then have "list_remove st (st ! sel) ((us @ ws) @ sel # vs) = Some ((us @ ws) @ vs)"
    by (intro list_remove_split) blast
  moreover note procs
  moreover have "\<forall>r\<in>set vs. P r \<longrightarrow> key sel \<le> key r" using s(3) v(4) by simp
  ultimately show ?thesis unfolding sel_def[symmetric] using v(3) before by blast
qed


lemma spn_step:
  assumes inv: "tracked ps (processes s) (store s)"
  shows "\<exists>s'. spn_body cs s = Inr s' \<and> tracked ps (processes s') (store s') \<and>
           ((eligible s = [] \<and> processes s' = processes s \<and> store s' = store s \<and>
             current_time s' = current_time s + 1)
            \<or> length (processes s') < length (processes s))"
proof (cases "eligible s")
  case Nil
  with inv show ?thesis by (simp add: spn_body_def)
next
  case (Cons e es)
  define sel where "sel = py_min (\<lambda>r. cbt (store s ! r)) e es"
  from Cons have f: "filter (\<lambda>r. of_int (at_time (store s ! r)) \<le> current_time s) (processes s) = e # es"
    by (simp add: eligible_def)
  from select_remove[OF f, of "store s" "\<lambda>r. cbt (store s ! r)"]
  obtain us vs where sr: "processes s = us @ sel # vs"
    "list_remove (store s) (store s ! sel) (processes s) = Some (us @ vs)"
    unfolding sel_def by auto
  define s' where "s' = dispatch cs sel (s\<lparr>processes := us @ vs\<rparr>)"
  have body: "spn_body cs s = Inr s'"
    using Cons sr(2) by (simp add: spn_body_def sel_def[symmetric] s'_def)
  from dispatch_store[of cs sel "s\<lparr>processes := us @ vs\<rparr>"] obtain p where
    p: "store s' = (store s)[sel := p]" "consistent p" "pid p = pid (store s ! sel)"
       "cbt p = cbt (store s ! sel)" "at_time p = at_time (store s ! sel)"
    unfolding s'_def by auto
  have pr: "processes s' = us @ vs" by (simp add: s'_def dispatch_fields)
  have d: "distinct (us @ sel # vs)" using inv sr(1) by (simp add: tracked_def)
  have "tracked ps (us @ vs) ((store s)[sel := p])"
    by (rule tracked_update[OF inv]) (use sr(1) p d in auto)
  with body pr p(1) sr(1) show ?thesis by auto
qed

lemma shrinking_loop:
  assumes step: "\<And>s::sim. tracked ps (processes s) (store s) \<Longrightarrow> pending s \<Longrightarrow>
      \<exists>s'. body s = Inr s' \<and> tracked ps (processes s') (store s') \<and>
           ((eligible s = [] \<and> processes s' = processes s \<and> store s' = store s \<and>
             current_time s' = current_time s + 1)
            \<or> length (processes s') < length (processes s))"
  shows "\<exists>t. py_while pending body (init_sim ps) = Some (Inr t) \<and> processes t = [] \<and>
           tracked ps [] (store t)"
proof -
  define A where "A = Max (insert 0 (at_time ` set ps))"
  define I where "I = (\<lambda>s::sim. tracked ps (processes s) (store s))"
  define R where "R = inv_image (less_than <*lex*> less_than)
      (\<lambda>s::sim. (length (processes s), nat \<lceil>of_int A - current_time s\<rceil>))"
  have wf: "wf R" unfolding R_def by (intro wf_inv_image wf_lex_prod wf_less_than)
  have init: "I (init_sim ps)" by (simp add: I_def init_sim_def tracked_init)
  have st: "\<exists>s'. body s = Inr s' \<and> I s' \<and> (s', s) \<in> R" if "I s" "pending s" for s
  proof -
    from step[OF that(1)[unfolded I_def] that(2)] obtain s' where
      s': "body s = Inr s'" "tracked ps (processes s') (store s')"
      "(eligible s = [] \<and> processes s' = processes s \<and> store s' = store s \<and>
             current_time s' = current_time s + 1)
            \<or> length (processes s') < length (processes s)" by blast
    have "(s', s) \<in> R"
    proof (cases "length (processes s') < length (processes s)")
      case True
      then show ?thesis by (simp add: R_def)
    next
      case False
      with s'(3) have idle: "eligible s = []" "processes s' = processes s"
        "current_time s' = current_time s + 1" by auto
      from that(2) obtain r where r: "r \<in> set (processes s)"
        by (cases "processes s") (auto simp: pending_def)
      with idle(1) have late: "current_time s < of_int (at_time (store s ! r))"
        by (auto simp: eligible_def filter_empty_conv)
      have rb: "r < length ps" using that(1) r by (simp add: I_def tracked_def)
      have "at_time (store s ! r) = at_time (ps ! r)"
        using that(1) rb by (simp add: I_def tracked_def same_static_nth)
      moreover have "at_time (ps ! r) \<le> A"
        unfolding A_def using rb by (intro Max_ge) auto
      ultimately have "(of_int (at_time (store s ! r)) :: rat) \<le> of_int A" by simp
      with late have "0 < of_int A - current_time s" by simp
      then have pos: "0 < \<lceil>of_int A - current_time s\<rceil>" by simp
      have "of_int A - (current_time s + 1) = of_int A - current_time s - 1" by simp
      then have "\<lceil>of_int A - (current_time s + 1)\<rceil> = \<lceil>of_int A - current_time s\<rceil> - 1"
        by (simp only: ceiling_diff_one)
      with pos have "nat \<lceil>of_int A - (current_time s + 1)\<rceil> < nat \<lceil>of_int A - current_time s\<rceil>"
        by simp
      with idle show ?thesis by (simp add: R_def)
    qed
    with s' show ?thesis by (auto simp: I_def)
  qed
  have "\<exists>t. py_while pending body (init_sim ps) = Some (Inr t)"
    by (rule py_while_terminates[where I = I and R = R, OF wf init]) (rule st)
  then obtain t where t: "py_while pending body (init_sim ps) = Some (Inr t)" by blast
  have "I t \<and> \<not> pending t"
  proof (rule py_while_rule[where I = I, OF t init])
    fix s s' assume "I s" "pending s" "body s = Inr s'"
    with st[of s] show "I s'" by auto
  qed
  with t show ?thesis by (auto simp: I_def pending_def)
qed

lemma spn_loop:
  "\<exists>t. py_while pending (spn_body cs) (init_sim ps) = Some (Inr t) \<and> processes t = [] \<and>
       tracked ps [] (store t)"
  by (rule shrinking_loop) (rule spn_step)

text \<open>
  HRRN: the loop over the eligible processes changes nothing but the key
  \<open>response_ratio\<close>, which it sets to the ratio at the current time.
\<close>

lemma plain_fields:
  assumes "plain p = plain q"
  shows "pid p = pid q" "cbt p = cbt q" "at_time p = at_time q"
    "remaining_time p = remaining_time q" "waiting_time p = waiting_time q"
    "turnaround_time p = turnaround_time q" "response_time p = response_time q"
proof -
  have "pid (plain p) = pid (plain q)" "cbt (plain p) = cbt (plain q)"
    "at_time (plain p) = at_time (plain q)" "remaining_time (plain p) = remaining_time (plain q)"
    "waiting_time (plain p) = waiting_time (plain q)"
    "turnaround_time (plain p) = turnaround_time (plain q)"
    "response_time (plain p) = response_time (plain q)"
    using assms by simp_all
  then show "pid p = pid q" "cbt p = cbt q" "at_time p = at_time q"
    "remaining_time p = remaining_time q" "waiting_time p = waiting_time q"
    "turnaround_time p = turnaround_time q" "response_time p = response_time q"
    by (simp_all add: plain_def)
qed

lemma set_ratios_other:
  "set_ratios t rs st = Inr st' \<Longrightarrow> r' \<notin> set rs \<Longrightarrow> st' ! r' = st ! r'"
proof (induction rs arbitrary: st)
  case Nil
  then show ?case by simp
next
  case (Cons x xs)
  from Cons.prems(1) have nz: "cbt (st ! x) \<noteq> 0"
    by (auto simp: Let_def split: if_splits)
  define st1 where
    "st1 = st[x := (st ! x)\<lparr>response_ratio :=
        Some ((t - of_int (at_time (st ! x)) + of_int (cbt (st ! x))) / of_int (cbt (st ! x)))\<rparr>]"
  from Cons.prems(1) nz have "set_ratios t xs st1 = Inr st'"
    by (simp add: Let_def st1_def)
  from Cons.IH[OF this] Cons.prems(2) have "st' ! r' = st1 ! r'" by simp
  also have "st1 ! r' = st ! r'" using Cons.prems(2) by (simp add: st1_def)
  finally show ?case .
qed

lemma set_ratios_spec:
  assumes "\<forall>r\<in>set rs. cbt (st ! r) \<noteq> 0"
  shows "\<exists>st'. set_ratios t rs st = Inr st' \<and> length st' = length st \<and>
           (\<forall>i<length st. plain (st' ! i) = plain (st ! i)) \<and>
           (\<forall>r\<in>set rs. r < length st \<longrightarrow> response_ratio (st' ! r) = Some (ratio_at t (st ! r)))"
  using assms
proof (induction rs arbitrary: st)
  case Nil
  show ?case by simp
next
  case (Cons r rs)
  define p where "p = (st ! r)\<lparr>response_ratio := Some (ratio_at t (st ! r))\<rparr>"
  define st1 where "st1 = st[r := p]"
  have pl: "plain (st1 ! i) = plain (st ! i)" if "i < length st" for i
    using that by (cases "i = r") (simp_all add: st1_def p_def plain_def)
  have len: "length st1 = length st" by (simp add: st1_def)
  have "\<forall>r'\<in>set rs. cbt (st1 ! r') \<noteq> 0"
  proof
    fix r' assume r': "r' \<in> set rs"
    show "cbt (st1 ! r') \<noteq> 0"
    proof (cases "r' < length st")
      case True
      from plain_fields(2)[OF pl[OF True]] Cons.prems r' show ?thesis by simp
    next
      case False
      then have "st1 = st \<or> r' \<noteq> r" by (auto simp: st1_def list_update_beyond)
      then have "st1 ! r' = st ! r'" by (auto simp: st1_def)
      with Cons.prems r' show ?thesis by simp
    qed
  qed
  from Cons.IH[OF this] obtain st' where
    st': "set_ratios t rs st1 = Inr st'" "length st' = length st1"
    "\<forall>i<length st1. plain (st' ! i) = plain (st1 ! i)"
    "\<forall>r\<in>set rs. r < length st1 \<longrightarrow> response_ratio (st' ! r) = Some (ratio_at t (st1 ! r))"
    by blast
  have step: "set_ratios t (r # rs) st = set_ratios t rs st1"
    using Cons.prems by (simp add: st1_def p_def ratio_at_def Let_def)
  have a: "\<forall>i<length st. plain (st' ! i) = plain (st ! i)"
    using st'(3) pl len by simp
  have b: "response_ratio (st' ! r') = Some (ratio_at t (st ! r'))"
    if "r' \<in> set (r # rs)" "r' < length st" for r'
  proof (cases "r' \<in> set rs")
    case True
    with st'(4) that(2) len have "response_ratio (st' ! r') = Some (ratio_at t (st1 ! r'))" by simp
    moreover have "ratio_at t (st1 ! r') = ratio_at t (st ! r')"
      using plain_fields(2,3)[OF pl[OF that(2)]] by (simp add: ratio_at_def)
    ultimately show ?thesis by simp
  next
    case False
    with that have eq: "r' = r" by simp
    from set_ratios_other[OF st'(1) False]
    have "response_ratio (st' ! r') = response_ratio (st1 ! r')" by simp
    with eq that(2) show ?thesis by (simp add: st1_def p_def)
  qed
  from step st'(1,2) len a b show ?case by auto
qed


lemma tracked_plain:
  assumes t: "tracked ps live st" and len: "length st' = length st"
    and pl: "\<forall>i<length st. plain (st' ! i) = plain (st ! i)"
  shows "tracked ps live st'"
proof -
  have l: "length st = length ps" using t by (simp add: tracked_def same_static_length)
  have eqs: "pid (st' ! i) = pid (st ! i)" "cbt (st' ! i) = cbt (st ! i)"
    "at_time (st' ! i) = at_time (st ! i)" if "i < length st" for i
    using pl that plain_fields(1,2,3)[of "st' ! i" "st ! i"] by simp_all
  have "map pid st' = map pid st"
    by (rule nth_equalityI) (simp_all add: len eqs)
  moreover have "map cbt st' = map cbt st"
    by (rule nth_equalityI) (simp_all add: len eqs)
  moreover have "map at_time st' = map at_time st"
    by (rule nth_equalityI) (simp_all add: len eqs)
  ultimately have "map pid st' = map pid st" "map cbt st' = map cbt st"
    "map at_time st' = map at_time st" by simp_all
  then have "same_static ps st'" using t by (simp add: tracked_def same_static_def)
  moreover have "consistent (st' ! i) = consistent (st ! i)" if "i < length ps" for i
    using pl that l plain_fields(2,5,6)[of "st' ! i" "st ! i"] by (simp add: consistent_def)
  ultimately show ?thesis using t by (simp add: tracked_def)
qed

lemma hrrn_select:
  assumes bnd: "\<forall>r\<in>set (processes s). r < length (store s)"
    and nz: "\<forall>r\<in>set (processes s). cbt (store s ! r) \<noteq> 0"
    and el: "eligible s = e # es"
  shows "\<exists>st sel us vs.
      set_ratios (current_time s) (e # es) (store s) = Inr st \<and>
      sel = py_max (\<lambda>r. ratio_key (st ! r)) e es \<and>
      processes s = us @ sel # vs \<and>
      list_remove st (st ! sel) (processes s) = Some (us @ vs) \<and>
      sel \<in> set (eligible s) \<and>
      length st = length (store s) \<and>
      (\<forall>i<length (store s). plain (st ! i) = plain (store s ! i)) \<and>
      (\<forall>r\<in>set us. r \<in> set (eligible s) \<longrightarrow>
          ratio_at (current_time s) (store s ! r) < ratio_at (current_time s) (store s ! sel)) \<and>
      (\<forall>r\<in>set vs. r \<in> set (eligible s) \<longrightarrow>
          ratio_at (current_time s) (store s ! r) \<le> ratio_at (current_time s) (store s ! sel))"
proof -
  define P where "P = (\<lambda>r. of_int (at_time (store s ! r)) \<le> current_time s)"
  have f: "filter P (processes s) = e # es" using el by (simp add: eligible_def P_def)
  have sub: "set (e # es) \<subseteq> set (processes s)"
    using f by (metis filter_is_subset)
  have elP: "r \<in> set (eligible s) \<longleftrightarrow> r \<in> set (processes s) \<and> P r" for r
    by (simp add: eligible_def P_def)
  from sub nz have "\<forall>r\<in>set (e # es). cbt (store s ! r) \<noteq> 0" by blast
  from set_ratios_spec[OF this, of "current_time s"] obtain st where
    st: "set_ratios (current_time s) (e # es) (store s) = Inr st" "length st = length (store s)"
    "\<forall>i<length (store s). plain (st ! i) = plain (store s ! i)"
    "\<forall>r\<in>set (e # es). r < length (store s) \<longrightarrow>
        response_ratio (st ! r) = Some (ratio_at (current_time s) (store s ! r))"
    by blast
  define key where "key = (\<lambda>r. - ratio_key (st ! r))"
  define sel where "sel = py_max (\<lambda>r. ratio_key (st ! r)) e es"
  have sel_min: "sel = py_min key e es" by (simp add: sel_def key_def py_max_as_min)
  have keyv: "key r = - ratio_at (current_time s) (store s ! r)" if "r \<in> set (eligible s)" for r
  proof -
    from that el have "r \<in> set (e # es)" by simp
    moreover from that bnd have "r < length (store s)" by (simp add: elP)
    ultimately have "response_ratio (st ! r) = Some (ratio_at (current_time s) (store s ! r))"
      using st(4) by blast
    then show ?thesis by (simp add: key_def ratio_key_def)
  qed
  have val: "P r = P r' \<and> key r = key r'"
    if "r \<in> set (processes s)" "r' \<in> set (processes s)" "st ! r = st ! r'" for r r'
  proof -
    from that bnd have b: "r < length (store s)" "r' < length (store s)" by simp_all
    from st(3) b have "plain (st ! r) = plain (store s ! r)" "plain (st ! r') = plain (store s ! r')"
      by simp_all
    then have "at_time (store s ! r) = at_time (st ! r)" "at_time (store s ! r') = at_time (st ! r')"
      using plain_fields(3)[of "st ! r" "store s ! r"] plain_fields(3)[of "st ! r'" "store s ! r'"]
      by simp_all
    with that(3) show ?thesis by (simp add: P_def key_def)
  qed
  from select_remove[OF f val]
  obtain us vs where sr: "processes s = us @ sel # vs"
    "list_remove st (st ! sel) (processes s) = Some (us @ vs)" "P sel"
    "\<forall>r\<in>set us. P r \<longrightarrow> key sel < key r" "\<forall>r\<in>set vs. P r \<longrightarrow> key sel \<le> key r"
    unfolding sel_min by blast
  have selE: "sel \<in> set (eligible s)" using sr(1,3) by (simp add: elP)
  have "ratio_at (current_time s) (store s ! r) < ratio_at (current_time s) (store s ! sel)"
    if "r \<in> set us" "r \<in> set (eligible s)" for r
  proof -
    from that have "P r" by (simp add: elP)
    with sr(4) that(1) have "key sel < key r" by blast
    with keyv[OF that(2)] keyv[OF selE] show ?thesis by simp
  qed
  moreover have "ratio_at (current_time s) (store s ! r) \<le> ratio_at (current_time s) (store s ! sel)"
    if "r \<in> set vs" "r \<in> set (eligible s)" for r
  proof -
    from that have "P r" by (simp add: elP)
    with sr(5) that(1) have "key sel \<le> key r" by blast
    with keyv[OF that(2)] keyv[OF selE] show ?thesis by simp
  qed
  ultimately show ?thesis using st(1,2,3) sr(1,2) selE sel_def by blast
qed

lemma valid_input_nth: "valid_input ps \<Longrightarrow> i < length ps \<Longrightarrow> valid_process (ps ! i)"
  by (simp add: valid_input_def list_all_length)

lemma hrrn_step:
  assumes v: "valid_input ps" and inv: "tracked ps (processes s) (store s)"
  shows "\<exists>s'. hrrn_body cs s = Inr s' \<and> tracked ps (processes s') (store s') \<and>
           ((eligible s = [] \<and> processes s' = processes s \<and> store s' = store s \<and>
             current_time s' = current_time s + 1)
            \<or> length (processes s') < length (processes s))"
proof (cases "eligible s")
  case Nil
  with inv show ?thesis by (simp add: hrrn_body_def)
next
  case (Cons e es)
  have len: "length (store s) = length ps" using inv by (simp add: tracked_def same_static_length)
  have bnd: "\<forall>r\<in>set (processes s). r < length (store s)"
    using inv len by (simp add: tracked_def)
  have nz: "\<forall>r\<in>set (processes s). cbt (store s ! r) \<noteq> 0"
  proof
    fix r assume "r \<in> set (processes s)"
    with bnd len have r: "r < length ps" by simp
    then have "cbt (store s ! r) = cbt (ps ! r)" using inv by (simp add: tracked_def same_static_nth)
    with valid_input_nth[OF v r] show "cbt (store s ! r) \<noteq> 0" by (simp add: valid_process_def)
  qed
  from hrrn_select[OF bnd nz Cons] obtain st sel us vs where
    h: "set_ratios (current_time s) (e # es) (store s) = Inr st"
       "sel = py_max (\<lambda>r. ratio_key (st ! r)) e es"
       "processes s = us @ sel # vs"
       "list_remove st (st ! sel) (processes s) = Some (us @ vs)"
       "length st = length (store s)"
       "\<forall>i<length (store s). plain (st ! i) = plain (store s ! i)"
    by blast
  define s' where "s' = dispatch cs sel (s\<lparr>store := st, processes := us @ vs\<rparr>)"
  have body: "hrrn_body cs s = Inr s'"
    using Cons h(1,4) by (simp add: hrrn_body_def h(2)[symmetric] s'_def)
  from dispatch_store[of cs sel "s\<lparr>store := st, processes := us @ vs\<rparr>"] obtain p where
    p: "store s' = st[sel := p]" "consistent p" "pid p = pid (st ! sel)"
       "cbt p = cbt (st ! sel)" "at_time p = at_time (st ! sel)"
    unfolding s'_def by auto
  have pr: "processes s' = us @ vs" by (simp add: s'_def dispatch_fields)
  have t1: "tracked ps (processes s) st" by (rule tracked_plain[OF inv h(5,6)])
  have d: "distinct (us @ sel # vs)" using inv h(3) by (simp add: tracked_def)
  have "tracked ps (us @ vs) (st[sel := p])"
    by (rule tracked_update[OF t1]) (use h(3) p d in auto)
  with body pr p(1) h(3) show ?thesis by auto
qed

lemma hrrn_loop:
  "valid_input ps \<Longrightarrow>
   \<exists>t. py_while pending (hrrn_body cs) (init_sim ps) = Some (Inr t) \<and> processes t = [] \<and>
       tracked ps [] (store t)"
  by (rule shrinking_loop) (rule hrrn_step)

text \<open>The preemptive engines: what a slice and a finalization change, and the two loops.\<close>

lemma tracked_start:
  assumes "distinct live" "set live = {0..<length ps}"
  shows "tracked ps live ps"
  using assms by (simp add: tracked_def same_static_refl)

lemma run_slice_fields:
  "processes (run_slice cs q r s) = processes s"
  "process_queue (run_slice cs q r s) = process_queue s"
  "completed (run_slice cs q r s) = completed s"
  "current_time (run_slice cs q r s) =
     current_time s + of_int (min q (remaining_time (store s ! r))) + cs"
  "gantt_data (run_slice cs q r s) =
     gantt_data s @ [(pid (store s ! r), current_time s,
                      current_time s + of_int (min q (remaining_time (store s ! r))))]"
  by (simp_all add: run_slice_def set_response_def Let_def)

lemma run_slice_store:
  "\<exists>p. store (run_slice cs q r s) = (store s)[r := p] \<and>
       pid p = pid (store s ! r) \<and> cbt p = cbt (store s ! r) \<and> at_time p = at_time (store s ! r) \<and>
       remaining_time p = remaining_time (store s ! r) - min q (remaining_time (store s ! r))"
  by (rule exI[of _ "(set_response (current_time s) (store s ! r))
        \<lparr>remaining_time := remaining_time (store s ! r) - min q (remaining_time (store s ! r))\<rparr>"])
     (simp add: run_slice_def set_response_def Let_def)

lemma finalize_fields:
  "processes (finalize r s) = processes s"
  "process_queue (finalize r s) = process_queue s"
  "completed (finalize r s) = completed s"
  "current_time (finalize r s) = current_time s"
  "gantt_data (finalize r s) = gantt_data s"
  by (simp_all add: finalize_def account_def Let_def)

lemma finalize_store:
  "\<exists>p. store (finalize r s) = (store s)[r := p] \<and> consistent p \<and>
       pid p = pid (store s ! r) \<and> cbt p = cbt (store s ! r) \<and> at_time p = at_time (store s ! r) \<and>
       remaining_time p = remaining_time (store s ! r) \<and>
       turnaround_time p = current_time s - of_int (at_time (store s ! r))"
  by (rule exI[of _ "(store s ! r)
        \<lparr>turnaround_time := current_time s - of_int (at_time (store s ! r)),
         waiting_time := current_time s - of_int (at_time (store s ! r)) - of_int (cbt (store s ! r))\<rparr>"])
     (simp add: finalize_def account_def Let_def consistent_def)

lemma admit_fields:
  "store (admit s) = store s"
  "completed (admit s) = completed s"
  "current_time (admit s) = current_time s"
  "gantt_data (admit s) = gantt_data s"
  "process_queue (admit s) @ processes (admit s) = process_queue s @ processes s"
  by (simp_all add: admit_def Let_def)

lemma work_update:
  assumes "r < length st" "nat (remaining_time p) < nat (remaining_time (st ! r))"
  shows "work (st[r := p]) < work st"
proof -
  let ?xs = "map (\<lambda>p. nat (remaining_time p)) st"
  have r: "r < length ?xs" using assms(1) by simp
  have le: "?xs ! r \<le> sum_list ?xs" using r by (rule elem_le_sum_list)
  have "work (st[r := p]) = sum_list (?xs[r := nat (remaining_time p)])"
    by (simp add: work_def map_update)
  also have "\<dots> = sum_list ?xs + nat (remaining_time p) - ?xs ! r"
    using r by (rule sum_list_update)
  also have "\<dots> < sum_list ?xs"
  proof -
    have "?xs ! r = nat (remaining_time (st ! r))" using assms(1) by simp
    with le have "nat (remaining_time (st ! r)) \<le> sum_list ?xs" by simp
    with assms(2) show ?thesis unfolding \<open>?xs ! r = nat (remaining_time (st ! r))\<close> by linarith
  qed
  finally show ?thesis by (simp add: work_def)
qed

lemma work_update_same:
  assumes "remaining_time p = remaining_time (st ! r)"
  shows "work (st[r := p]) = work st"
  using assms by (simp add: work_def map_update_same)

lemma rr_step:
  assumes q: "0 < q" and inv: "rr_inv ps s" and c: "rr_cond s"
  shows "\<exists>s'. rr_body cs q s = Inr s' \<and> rr_inv ps s' \<and> work (store s') < work (store s)"
proof -
  define s1 where "s1 = (case (process_queue s, processes s) of
                  ([], r # rs) \<Rightarrow>
                     s\<lparr>current_time := of_int (at_time (store s ! r)),
                       process_queue := [r], processes := rs\<rparr>
                | _ \<Rightarrow> s)"
  have s1: "store s1 = store s" "process_queue s1 @ processes s1 = process_queue s @ processes s"
    "process_queue s1 \<noteq> []"
    using c by (auto simp: s1_def rr_cond_def split: list.splits)
  then obtain cur rest where qu: "process_queue s1 = cur # rest" by (cases "process_queue s1") auto
  define live where "live = process_queue s @ processes s"
  have live: "live = cur # rest @ processes s1" using s1(2) qu by (simp add: live_def)
  have t: "tracked ps live (store s)" and pos: "\<forall>r\<in>set live. 0 < remaining_time (store s ! r)"
    using inv by (simp_all add: rr_inv_def live_def)
  have len: "length (store s) = length ps" using t by (simp add: tracked_def same_static_length)
  have curb: "cur < length (store s)" using t live len by (simp add: tracked_def)
  have d: "distinct (cur # rest @ processes s1)" using t live by (simp add: tracked_def)
  define s2 where "s2 = run_slice cs q cur (s1\<lparr>process_queue := rest\<rparr>)"
  define s3 where "s3 = admit s2"
  from run_slice_store[of cs q cur "s1\<lparr>process_queue := rest\<rparr>"] obtain p2 where
    p2: "store s2 = (store s)[cur := p2]" "pid p2 = pid (store s ! cur)"
        "cbt p2 = cbt (store s ! cur)" "at_time p2 = at_time (store s ! cur)"
        "remaining_time p2 = remaining_time (store s ! cur) - min q (remaining_time (store s ! cur))"
    unfolding s2_def by (auto simp: s1(1))
  have s3: "store s3 = (store s)[cur := p2]"
    "process_queue s3 @ processes s3 = rest @ processes s1"
    by (simp_all add: s3_def admit_fields p2(1)) (simp add: s2_def run_slice_fields)
  have rem: "0 < remaining_time (store s ! cur)" using pos live by simp
  with q p2(5) have less: "nat (remaining_time p2) < nat (remaining_time (store s ! cur))"
    by (simp add: min_def)
  have cur3: "store s3 ! cur = p2" using s3(1) curb by simp
  have body: "rr_body cs q s =
      (if remaining_time p2 > 0 then Inr (s3\<lparr>process_queue := process_queue s3 @ [cur]\<rparr>)
       else Inr (finalize cur s3))"
  proof -
    have "rr_body cs q s =
        (case process_queue s1 of
           [] \<Rightarrow> Inl IndexError
         | current_process # rest \<Rightarrow>
             (let s2 = run_slice cs q current_process (s1\<lparr>process_queue := rest\<rparr>);
                  s3 = admit s2
              in if remaining_time (store s3 ! current_process) > 0
                 then Inr (s3\<lparr>process_queue := process_queue s3 @ [current_process]\<rparr>)
                 else Inr (finalize current_process s3)))"
      by (simp only: rr_body_def s1_def Let_def)
    also have "\<dots> = (if remaining_time p2 > 0 then Inr (s3\<lparr>process_queue := process_queue s3 @ [cur]\<rparr>)
       else Inr (finalize cur s3))"
      by (simp add: qu Let_def s2_def[symmetric] s3_def[symmetric] cur3)
    finally show ?thesis .
  qed
  have set3: "set (process_queue s3) \<union> set (processes s3) = set rest \<union> set (processes s1)"
    using s3(2) by (metis set_append)
  have d3: "distinct (process_queue s3 @ processes s3)" using d s3(2) by simp
  show ?thesis
  proof (cases "remaining_time p2 > 0")
    case True
    define s' where "s' = s3\<lparr>process_queue := process_queue s3 @ [cur]\<rparr>"
    have b: "rr_body cs q s = Inr s'" using body True by (simp add: s'_def)
    have st': "store s' = (store s)[cur := p2]" by (simp add: s'_def s3)
    have l': "process_queue s' @ processes s' = process_queue s3 @ [cur] @ processes s3"
      by (simp add: s'_def)
    have dl: "distinct (process_queue s3 @ [cur] @ processes s3)"
      using d d3 set3 by auto
    have sl: "set (process_queue s3 @ [cur] @ processes s3) = set live"
      using set3 live by auto
    have tr: "tracked ps (process_queue s3 @ [cur] @ processes s3) ((store s)[cur := p2])"
      by (rule tracked_update[OF t]) (use live p2 dl sl in auto)
    have "0 < remaining_time ((store s)[cur := p2] ! r)"
      if "r \<in> set (process_queue s3 @ [cur] @ processes s3)" for r
    proof (cases "r = cur")
      case True
      with \<open>remaining_time p2 > 0\<close> curb show ?thesis by simp
    next
      case False
      from that sl have "r \<in> set live" by auto
      with pos False show ?thesis by simp
    qed
    then have "rr_inv ps s'" using tr by (simp add: rr_inv_def l' st' del: append_assoc append.simps)
    moreover have "work (store s') < work (store s)"
      unfolding st' by (rule work_update[OF curb less])
    ultimately show ?thesis using b by blast
  next
    case False
    define s' where "s' = finalize cur s3"
    have b: "rr_body cs q s = Inr s'" using body False by (simp add: s'_def)
    from finalize_store[of cur s3] obtain p3 where
      p3: "store s' = (store s3)[cur := p3]" "consistent p3" "pid p3 = pid (store s3 ! cur)"
      "cbt p3 = cbt (store s3 ! cur)" "at_time p3 = at_time (store s3 ! cur)"
      "remaining_time p3 = remaining_time (store s3 ! cur)"
      unfolding s'_def by auto
    have st': "store s' = (store s)[cur := p3]" using p3(1) s3(1) by simp
    have l': "process_queue s' @ processes s' = rest @ processes s1"
      using s3(2) by (simp add: s'_def finalize_fields)
    have tr: "tracked ps (rest @ processes s1) ((store s)[cur := p3])"
      by (rule tracked_update[OF t]) (use live p2 p3 cur3 d in auto)
    have "0 < remaining_time ((store s)[cur := p3] ! r)" if "r \<in> set (rest @ processes s1)" for r
    proof -
      from that d have "r \<noteq> cur" by auto
      with that live pos show ?thesis by simp
    qed
    then have "rr_inv ps s'" using tr by (simp add: rr_inv_def l' st')
    moreover have "nat (remaining_time p3) < nat (remaining_time (store s ! cur))"
      using less p3(6) cur3 by simp
    then have "work (store s') < work (store s)"
      unfolding st' by (rule work_update[OF curb])
    ultimately show ?thesis using b by blast
  qed
qed

lemma rr_loop:
  assumes q: "0 < q" and v: "valid_input ps"
  shows "\<exists>t. py_while rr_cond (rr_body cs q) (rr_start ps) = Some (Inr t) \<and>
           tracked ps [] (store t)"
proof -
  define I where "I = (\<lambda>s::sim. rr_inv ps s)"
  define R where "R = measure (\<lambda>s::sim. work (store s))"
  have wf: "wf R" by (simp add: R_def)
  have "tracked ps (process_queue (rr_start ps) @ processes (rr_start ps)) ps"
    by (rule tracked_start) (auto simp: rr_start_def init_sim_def)
  moreover have "0 < remaining_time (ps ! r)" if "r < length ps" for r
    using valid_input_nth[OF v that] by (simp add: valid_process_def)
  ultimately have init: "I (rr_start ps)"
    by (auto simp: I_def rr_inv_def rr_start_def init_sim_def)
  have st: "\<exists>s'. rr_body cs q s = Inr s' \<and> I s' \<and> (s', s) \<in> R" if "I s" "rr_cond s" for s
    using rr_step[OF q that(1)[unfolded I_def] that(2), of cs] by (auto simp: I_def R_def)
  have "\<exists>t. py_while rr_cond (rr_body cs q) (rr_start ps) = Some (Inr t)"
    by (rule py_while_terminates[where I = I and R = R, OF wf init]) (rule st)
  then obtain t where t: "py_while rr_cond (rr_body cs q) (rr_start ps) = Some (Inr t)" by blast
  have "I t \<and> \<not> rr_cond t"
  proof (rule py_while_rule[where I = I, OF t init])
    fix s s' assume "I s" "rr_cond s" "rr_body cs q s = Inr s'"
    with st[of s] show "I s'" by auto
  qed
  with t show ?thesis by (auto simp: I_def rr_inv_def rr_cond_def)
qed

lemma py_min_mem: "py_min key b xs \<in> set (b # xs)"
  using py_min_split[of b xs key] by (metis in_set_conv_decomp)

lemma srtf_step:
  assumes q: "0 < q" and inv: "srtf_inv ps s" and c: "srtf_cond s"
  shows "\<exists>s'. srtf_body cs q s = Inr s' \<and> srtf_inv ps s' \<and> srtf_measure s' < srtf_measure s"
proof -
  have t: "tracked ps (processes s) (store s)"
    and pos: "\<forall>r\<in>set (processes s). 0 < remaining_time (store s ! r)"
    and fin: "\<forall>r\<in>set (completed s). r \<notin> set (processes s) \<and> remaining_time (store s ! r) \<le> 0"
    using inv by (simp_all add: srtf_inv_def)
  have len: "length (store s) = length ps" using t by (simp add: tracked_def same_static_length)
  have bnd: "\<forall>r\<in>set (processes s). r < length (store s)" using t len by (simp add: tracked_def)
  have dist: "distinct (processes s)" using t by (simp add: tracked_def)
  have "\<not> list_ex (\<lambda>r. remaining_time (store s ! r) > 0) (completed s)"
    using fin by (auto simp: list_ex_iff)
  with c have ne: "processes s \<noteq> []" by (simp add: srtf_cond_def)
  show ?thesis
  proof (cases "eligible s")
    case Nil
    from ne obtain r rs where pr: "processes s = r # rs" by (cases "processes s") auto
    define m where "m = py_min (\<lambda>a. a) (at_time (store s ! r)) (map (\<lambda>r'. at_time (store s ! r')) rs)"
    define s' where "s' = s\<lparr>current_time := of_int m\<rparr>"
    have b: "srtf_body cs q s = Inr s'" using Nil pr by (simp add: srtf_body_def m_def s'_def)
    have "m \<in> set (at_time (store s ! r) # map (\<lambda>r'. at_time (store s ! r')) rs)"
      unfolding m_def by (rule py_min_mem)
    then have "m \<in> set (map (\<lambda>r'. at_time (store s ! r')) (r # rs))" by simp
    then obtain r' where r': "r' \<in> set (processes s)" "at_time (store s ! r') = m"
      using pr by auto
    then have "r' \<in> set (eligible s')" by (simp add: eligible_def s'_def)
    then have "eligible s' \<noteq> []" by auto
    then have "srtf_measure s' < srtf_measure s" using Nil by (simp add: srtf_measure_def s'_def)
    moreover have "srtf_inv ps s'" using inv by (simp add: srtf_inv_def s'_def)
    ultimately show ?thesis using b by blast
  next
    case (Cons e es)
    define sel where "sel = py_min (\<lambda>r. remaining_time (store s ! r)) e es"
    have "sel \<in> set (e # es)" unfolding sel_def by (rule py_min_mem)
    then have "sel \<in> set (eligible s)" using Cons by simp
    then have selp: "sel \<in> set (processes s)" by (simp add: eligible_def)
    then have selb: "sel < length (store s)" using bnd by simp
    have rem: "0 < remaining_time (store s ! sel)" using pos selp by simp
    define s1 where "s1 = run_slice cs q sel s"
    from run_slice_store[of cs q sel s] obtain p2 where
      p2: "store s1 = (store s)[sel := p2]" "pid p2 = pid (store s ! sel)"
          "cbt p2 = cbt (store s ! sel)" "at_time p2 = at_time (store s ! sel)"
          "remaining_time p2 = remaining_time (store s ! sel) - min q (remaining_time (store s ! sel))"
      unfolding s1_def by auto
    from rem q p2(5) have r2: "0 \<le> remaining_time p2" "remaining_time p2 < remaining_time (store s ! sel)"
      by (simp_all add: min_def)
    then have less: "nat (remaining_time p2) < nat (remaining_time (store s ! sel))" by simp
    have sel1: "store s1 ! sel = p2" using p2(1) selb by simp
    have f1: "processes s1 = processes s" "completed s1 = completed s"
      by (simp_all add: s1_def run_slice_fields)
    show ?thesis
    proof (cases "remaining_time p2 = 0")
      case False
      have b: "srtf_body cs q s = Inr s1"
        using Cons False by (simp add: srtf_body_def sel_def[symmetric] s1_def[symmetric] sel1 Let_def)
      have tr: "tracked ps (processes s) ((store s)[sel := p2])"
        by (rule tracked_update[OF t selp]) (use p2 dist selp in auto)
      have "0 < remaining_time ((store s)[sel := p2] ! r)" if "r \<in> set (processes s)" for r
        using that pos r2 False selb by (cases "r = sel") simp_all
      moreover have "r \<notin> set (processes s) \<and> remaining_time ((store s)[sel := p2] ! r) \<le> 0"
        if "r \<in> set (completed s)" for r
      proof -
        from fin that have "r \<notin> set (processes s)" "remaining_time (store s ! r) \<le> 0" by auto
        moreover from this selp have "r \<noteq> sel" by auto
        ultimately show ?thesis by simp
      qed
      ultimately have "srtf_inv ps s1" using tr by (simp add: srtf_inv_def f1 p2(1))
      moreover have "work (store s1) < work (store s)"
        unfolding p2(1) by (rule work_update[OF selb less])
      then have "srtf_measure s1 < srtf_measure s" by (simp add: srtf_measure_def)
      ultimately show ?thesis using b by blast
    next
      case True
      define s2 where "s2 = finalize sel s1"
      define s3 where "s3 = s2\<lparr>completed := completed s2 @ [sel]\<rparr>"
      from finalize_store[of sel s1] obtain p3 where
        p3: "store s2 = (store s1)[sel := p3]" "consistent p3" "pid p3 = pid (store s1 ! sel)"
        "cbt p3 = cbt (store s1 ! sel)" "at_time p3 = at_time (store s1 ! sel)"
        "remaining_time p3 = remaining_time (store s1 ! sel)"
        unfolding s2_def by auto
      have st3: "store s3 = (store s)[sel := p3]" using p3(1) p2(1) by (simp add: s3_def)
      have f3: "processes s3 = processes s" "completed s3 = completed s @ [sel]"
        by (simp_all add: s3_def s2_def finalize_fields f1)
      have sel3: "store s3 ! sel = p3" using st3 selb by simp
      have rem3: "remaining_time p3 = 0" using p3(6) sel1 True by simp
      from selp obtain us vs where sp: "processes s = us @ sel # vs" by (auto dest: split_list)
      have nus: "sel \<notin> set us" "sel \<notin> set vs" using dist sp by auto
      have "store s3 ! u \<noteq> store s3 ! sel" if "u \<in> set us" for u
      proof -
        from that nus have "u \<noteq> sel" by auto
        then have "store s3 ! u = store s ! u" by (simp add: st3)
        moreover have "0 < remaining_time (store s ! u)" using pos that sp by simp
        ultimately show ?thesis using sel3 rem3 by auto
      qed
      then have lr: "list_remove (store s3) (store s3 ! sel) (processes s3) = Some (us @ vs)"
        unfolding f3 sp by (intro list_remove_split) blast
      define s' where "s' = s3\<lparr>processes := us @ vs\<rparr>"
      from lr have lr2: "list_remove (store s2) (store s2 ! sel) (processes s2) = Some (us @ vs)"
        by (simp add: s3_def)
      have b: "srtf_body cs q s = Inr s'"
        using Cons True lr2
        by (simp add: srtf_body_def sel_def[symmetric] s1_def[symmetric] sel1 Let_def
            s2_def[symmetric] s3_def s'_def)
      have tr: "tracked ps (us @ vs) ((store s)[sel := p3])"
        by (rule tracked_update[OF t selp]) (use p2 p3 sel1 dist sp in auto)
      have "0 < remaining_time ((store s)[sel := p3] ! r)" if "r \<in> set (us @ vs)" for r
      proof -
        from that nus have "r \<noteq> sel" by auto
        moreover from that sp have "r \<in> set (processes s)" by auto
        ultimately show ?thesis using pos by simp
      qed
      moreover have "r \<notin> set (us @ vs) \<and> remaining_time ((store s)[sel := p3] ! r) \<le> 0"
        if "r \<in> set (completed s @ [sel])" for r
      proof (cases "r = sel")
        case True
        with nus rem3 selb show ?thesis by simp
      next
        case False
        with that have "r \<in> set (completed s)" by simp
        with fin have "r \<notin> set (processes s)" "remaining_time (store s ! r) \<le> 0" by auto
        with False sp show ?thesis by simp
      qed
      ultimately have "srtf_inv ps s'"
        using tr by (simp add: srtf_inv_def s'_def f3 st3)
      moreover have "nat (remaining_time p3) < nat (remaining_time (store s ! sel))"
        using rem3 rem by simp
      then have "work (store s') < work (store s)"
        unfolding s'_def using work_update[OF selb, of p3] by (simp add: st3)
      then have "srtf_measure s' < srtf_measure s" by (simp add: srtf_measure_def)
      ultimately show ?thesis using b by blast
    qed
  qed
qed

lemma srtf_loop:
  assumes q: "0 < q" and v: "valid_input ps"
  shows "\<exists>t. py_while srtf_cond (srtf_body cs q) (init_sim ps) = Some (Inr t) \<and>
           processes t = [] \<and> tracked ps [] (store t)"
proof -
  define I where "I = (\<lambda>s::sim. srtf_inv ps s)"
  define R where "R = measure srtf_measure"
  have wf: "wf R" by (simp add: R_def)
  have "0 < remaining_time (ps ! r)" if "r < length ps" for r
    using valid_input_nth[OF v that] by (simp add: valid_process_def)
  then have init: "I (init_sim ps)"
    using tracked_init[of ps] by (simp add: I_def srtf_inv_def init_sim_def)
  have st: "\<exists>s'. srtf_body cs q s = Inr s' \<and> I s' \<and> (s', s) \<in> R" if "I s" "srtf_cond s" for s
    using srtf_step[OF q that(1)[unfolded I_def] that(2), of cs] by (auto simp: I_def R_def)
  have "\<exists>t. py_while srtf_cond (srtf_body cs q) (init_sim ps) = Some (Inr t)"
    by (rule py_while_terminates[where I = I and R = R, OF wf init]) (rule st)
  then obtain t where t: "py_while srtf_cond (srtf_body cs q) (init_sim ps) = Some (Inr t)" by blast
  have "I t \<and> \<not> srtf_cond t"
  proof (rule py_while_rule[where I = I, OF t init])
    fix s s' assume "I s" "srtf_cond s" "srtf_body cs q s = Inr s'"
    with st[of s] show "I s'" by auto
  qed
  then have "processes t = []" "tracked ps (processes t) (store t)"
    by (auto simp: I_def srtf_inv_def srtf_cond_def)
  with t show ?thesis by auto
qed

lemma fcfs_body_store:
  "\<exists>p. store (fcfs_body cs r s) = (store s)[r := p] \<and> consistent p \<and>
       pid p = pid (store s ! r) \<and> cbt p = cbt (store s ! r) \<and> at_time p = at_time (store s ! r)"
proof -
  define s0 where "s0 = (if current_time s < of_int (at_time (store s ! r))
      then s\<lparr>current_time := of_int (at_time (store s ! r))\<rparr> else s)"
  have "store s0 = store s" by (simp add: s0_def)
  moreover have "fcfs_body cs r s = dispatch cs r s0" by (simp add: fcfs_body_def s0_def Let_def)
  ultimately show ?thesis using dispatch_store[of cs r s0] by auto
qed

lemma fcfs_fold:
  "tracked ps rs (store s) \<Longrightarrow> tracked ps [] (store (fold (fcfs_body cs) rs s))"
proof (induction rs arbitrary: s)
  case Nil
  then show ?case by simp
next
  case (Cons r rs)
  from fcfs_body_store[of cs r s] obtain p where
    p: "store (fcfs_body cs r s) = (store s)[r := p]" "consistent p" "pid p = pid (store s ! r)"
       "cbt p = cbt (store s ! r)" "at_time p = at_time (store s ! r)" by blast
  have d: "distinct (r # rs)" using Cons.prems by (simp add: tracked_def)
  have "tracked ps rs ((store s)[r := p])"
    by (rule tracked_update[OF Cons.prems]) (use p d in auto)
  with p(1) have "tracked ps rs (store (fcfs_body cs r s))" by simp
  from Cons.IH[OF this] show ?case by simp
qed

section \<open>What the engines return\<close>

text \<open>
  Each engine, on the input it accepts, returns its pair; at that point every process is
  finalized, so the invariant holds with no live process.
\<close>

lemma tracked_final:
  assumes "tracked ps [] st"
  shows "same_static ps st"
    and "list_all2 (\<lambda>p0 p. turnaround_time p - waiting_time p = of_int (cbt p0)) ps st"
proof -
  show s: "same_static ps st" using assms by (simp add: tracked_def)
  have len: "length st = length ps" using s by (rule same_static_length)
  have "turnaround_time (st ! i) - waiting_time (st ! i) = of_int (cbt (ps ! i))"
    if "i < length ps" for i
  proof -
    have "consistent (st ! i)" using assms that by (simp add: tracked_def)
    moreover have "cbt (st ! i) = cbt (ps ! i)" using s that by (rule same_static_nth)
    ultimately show ?thesis by (simp add: consistent_def)
  qed
  then show "list_all2 (\<lambda>p0 p. turnaround_time p - waiting_time p = of_int (cbt p0)) ps st"
    using len by (simp add: list_all2_conv_all_nth)
qed

lemma fcfs_result:
  assumes "ps \<noteq> []"
  shows "\<exists>out. fcfs_scheduling ps cs = Some (Inr out) \<and> tracked ps [] (objects out) \<and>
           caller_list out = sort_key (\<lambda>r. at_time (ps ! r)) [0..<length ps]"
proof -
  define sl where "sl = sort_key (\<lambda>r. at_time (ps ! r)) [0..<length ps]"
  define s where "s = fold (fcfs_body cs) sl ((init_sim ps)\<lparr>processes := sl\<rparr>)"
  have "tracked ps sl ps" by (rule tracked_start) (simp_all add: sl_def)
  then have "tracked ps sl (store ((init_sim ps)\<lparr>processes := sl\<rparr>))" by (simp add: init_sim_def)
  then have t: "tracked ps [] (store s)" unfolding s_def by (rule fcfs_fold)
  have "length sl \<noteq> 0" using assms by (simp add: sl_def)
  then have "fcfs_scheduling ps cs = Some (Inr \<lparr>gantt = gantt_data s,
        result_metrics = \<lparr>avg_waiting_time = total_waiting_time s / of_nat (length sl),
                avg_turnaround_time = total_turnaround_time s / of_nat (length sl),
                avg_response_time = total_response_time s / of_nat (length sl),
                all_waiting_time = waiting_times s,
                all_turnaround_time = turnaround_times s,
                all_response_time = response_times s\<rparr>,
        objects = store s, caller_list = sl\<rparr>)"
    by (simp add: fcfs_scheduling_def sl_def[symmetric] s_def[symmetric] Let_def finish_def
        make_metrics_def)
  with t show ?thesis by (simp add: sl_def)
qed

lemma fcfs_empty: "fcfs_scheduling [] cs = Some (Inl ZeroDivisionError)"
  by (simp add: fcfs_scheduling_def finish_def make_metrics_def Let_def)

lemma after_loop_result:
  assumes "r = Some (Inr t)" "processes t = []" "tracked ps [] (store t)" "ps \<noteq> []"
  shows "\<exists>out. after_loop (length ps) r = Some (Inr out) \<and> tracked ps [] (objects out) \<and>
           caller_list out = []"
  using assms by (simp add: after_loop_def finish_def make_metrics_def)

lemma after_loop_empty:
  assumes "r = Some (Inr t)"
  shows "after_loop 0 r = Some (Inl ZeroDivisionError)"
  using assms by (simp add: after_loop_def finish_def make_metrics_def)

lemma spn_result:
  assumes "ps \<noteq> []"
  shows "\<exists>out. spn_scheduling ps cs = Some (Inr out) \<and> tracked ps [] (objects out) \<and>
           caller_list out = []"
proof -
  from spn_loop[of cs ps] obtain t where
    "py_while pending (spn_body cs) (init_sim ps) = Some (Inr t)" "processes t = []"
    "tracked ps [] (store t)" by blast
  from after_loop_result[OF this assms] show ?thesis by (simp add: spn_scheduling_def)
qed

lemma spn_empty: "spn_scheduling [] cs = Some (Inl ZeroDivisionError)"
proof -
  from spn_loop[of cs "[]"] obtain t where
    "py_while pending (spn_body cs) (init_sim []) = Some (Inr t)" by blast
  from after_loop_empty[OF this] show ?thesis by (simp add: spn_scheduling_def)
qed

lemma hrrn_result:
  assumes "valid_input ps" "ps \<noteq> []"
  shows "\<exists>out. hrrn_scheduling ps cs = Some (Inr out) \<and> tracked ps [] (objects out) \<and>
           caller_list out = []"
proof -
  from hrrn_loop[OF assms(1), of cs] obtain t where
    "py_while pending (hrrn_body cs) (init_sim ps) = Some (Inr t)" "processes t = []"
    "tracked ps [] (store t)" by blast
  from after_loop_result[OF this assms(2)] show ?thesis by (simp add: hrrn_scheduling_def)
qed

lemma valid_input_empty: "valid_input []"
  by (simp add: valid_input_def)

lemma hrrn_empty: "hrrn_scheduling [] cs = Some (Inl ZeroDivisionError)"
proof -
  from hrrn_loop[OF valid_input_empty, of cs] obtain t where
    "py_while pending (hrrn_body cs) (init_sim []) = Some (Inr t)" by blast
  from after_loop_empty[OF this] show ?thesis by (simp add: hrrn_scheduling_def)
qed

lemma srtf_result:
  assumes "0 < q" "valid_input ps" "ps \<noteq> []"
  shows "\<exists>out. srtf_scheduling ps cs q = Some (Inr out) \<and> tracked ps [] (objects out) \<and>
           caller_list out = []"
proof -
  from srtf_loop[OF assms(1,2), of cs] obtain t where
    "py_while srtf_cond (srtf_body cs q) (init_sim ps) = Some (Inr t)" "processes t = []"
    "tracked ps [] (store t)" by blast
  from after_loop_result[OF this assms(3)] show ?thesis by (simp add: srtf_scheduling_def)
qed

lemma srtf_empty: "srtf_scheduling [] cs q = Some (Inl ZeroDivisionError)"
proof -
  have "\<not> srtf_cond (init_sim [])" by (simp add: srtf_cond_def init_sim_def)
  then have "py_while srtf_cond (srtf_body cs q) (init_sim []) = Some (Inr (init_sim []))"
    by (subst py_while.simps) simp
  from after_loop_empty[OF this] show ?thesis by (simp add: srtf_scheduling_def)
qed

lemma rr_result:
  assumes "0 < q" "valid_input ps"
  shows "\<exists>out. rr_scheduling ps cs q = Some (Inr out) \<and> tracked ps [] (objects out) \<and>
           caller_list out = [0..<length ps]"
proof -
  from rr_loop[OF assms, of cs] obtain t where
    "py_while rr_cond (rr_body cs q) (rr_start ps) = Some (Inr t)" "tracked ps [] (store t)"
    by blast
  with assms(1) show ?thesis by (simp add: rr_scheduling_def finish_def)
qed

lemma valid_scenario: "valid_input scenario"
  by (simp add: scenario_def valid_input_def valid_process_def new_process_def)

lemma scenario_not_empty: "scenario \<noteq> []"
  by (simp add: scenario_def)

section \<open>Metric consistency\<close>

text \<open>
  C2.  On valid input and with a positive quantum, each of the five engines returns,
  and for every process the finalized turnaround time minus the finalized waiting time
  is the burst time of the process.  The context switch time is arbitrary.
\<close>

theorem turnaround_minus_waiting_is_burst:
  assumes "valid_input ps" "ps \<noteq> []" "0 < q"
  shows "metrics_consistent ps (fcfs_scheduling ps cs) \<and>
         metrics_consistent ps (spn_scheduling ps cs) \<and>
         metrics_consistent ps (hrrn_scheduling ps cs) \<and>
         metrics_consistent ps (rr_scheduling ps cs q) \<and>
         metrics_consistent ps (srtf_scheduling ps cs q)"
proof -
  have "metrics_consistent ps r"
    if "\<exists>out. r = Some (Inr out) \<and> tracked ps [] (objects out) \<and> caller_list out = cl" for r cl
    using that by (auto simp: metrics_consistent_def dest: tracked_final(2))
  then show ?thesis
    using fcfs_result[OF assms(2), of cs] spn_result[OF assms(2), of cs]
      hrrn_result[OF assms(1,2), of cs] rr_result[OF assms(3,1), of cs]
      srtf_result[OF assms(3,1,2), of cs]
    by blast
qed

text \<open>The scenario of the specification, with context switch time 1/2 and quantum 2.\<close>

theorem turnaround_minus_waiting_is_burst_witness:
  "valid_input scenario \<and> scenario \<noteq> [] \<and> (0::int) < 2 \<and>
   metrics_consistent scenario (fcfs_scheduling scenario (1/2)) \<and>
   metrics_consistent scenario (spn_scheduling scenario (1/2)) \<and>
   metrics_consistent scenario (hrrn_scheduling scenario (1/2)) \<and>
   metrics_consistent scenario (rr_scheduling scenario (1/2) 2) \<and>
   metrics_consistent scenario (srtf_scheduling scenario (1/2) 2)"
  using valid_scenario scenario_not_empty
    turnaround_minus_waiting_is_burst[OF valid_scenario scenario_not_empty, of 2 "1/2"]
  by simp

section \<open>Termination\<close>

text \<open>
  C9.  On valid input (not empty, positive burst times, arrival times that are not
  negative, the whole burst remaining) and with a positive quantum, each of the five
  engines terminates: its run is some result, never the missing one of a loop that goes
  on forever.  In SPN and HRRN an idle step moves the clock by 1 towards the largest
  arrival time and a dispatch shortens \<open>processes\<close>; in RR every iteration, and in SRTF
  every slice, lowers the sum of the remaining times, and the jump of SRTF makes a
  process eligible.
\<close>

theorem engines_terminate:
  assumes "valid_input ps" "ps \<noteq> []" "0 < q"
  shows "(\<exists>r. fcfs_scheduling ps cs = Some r) \<and> (\<exists>r. spn_scheduling ps cs = Some r) \<and>
         (\<exists>r. hrrn_scheduling ps cs = Some r) \<and> (\<exists>r. rr_scheduling ps cs q = Some r) \<and>
         (\<exists>r. srtf_scheduling ps cs q = Some r)"
  using fcfs_result[OF assms(2), of cs] spn_result[OF assms(2), of cs]
    hrrn_result[OF assms(1,2), of cs] rr_result[OF assms(3,1), of cs]
    srtf_result[OF assms(3,1,2), of cs]
  by blast

theorem engines_terminate_witness:
  "valid_input scenario \<and> scenario \<noteq> [] \<and> (0::int) < 2 \<and>
   (\<exists>r. fcfs_scheduling scenario (1/2) = Some r) \<and> (\<exists>r. spn_scheduling scenario (1/2) = Some r) \<and>
   (\<exists>r. hrrn_scheduling scenario (1/2) = Some r) \<and> (\<exists>r. rr_scheduling scenario (1/2) 2 = Some r) \<and>
   (\<exists>r. srtf_scheduling scenario (1/2) 2 = Some r)"
  using valid_scenario scenario_not_empty
    engines_terminate[OF valid_scenario scenario_not_empty, of 2 "1/2"]
  by simp

section \<open>Division by zero\<close>

text \<open>
  C7, as amended.  On valid input and with a positive quantum, FCFS, SPN, HRRN and SRTF
  raise \<open>ZeroDivisionError\<close> if the process list is empty and return their metrics
  without error if it is not; RR returns its metrics without error in both cases.
\<close>

theorem division_error_only_on_empty_input_and_never_in_rr:
  assumes "valid_input ps" "0 < q"
  shows "(if ps = []
          then division_error (fcfs_scheduling ps cs) \<and> division_error (spn_scheduling ps cs) \<and>
               division_error (hrrn_scheduling ps cs) \<and> division_error (srtf_scheduling ps cs q)
          else returns_metrics (fcfs_scheduling ps cs) \<and> returns_metrics (spn_scheduling ps cs) \<and>
               returns_metrics (hrrn_scheduling ps cs) \<and> returns_metrics (srtf_scheduling ps cs q)) \<and>
         returns_metrics (rr_scheduling ps cs q)"
proof (cases "ps = []")
  case True
  then show ?thesis
    using rr_result[OF assms(2,1), of cs]
    by (auto simp: division_error_def returns_metrics_def fcfs_empty spn_empty hrrn_empty srtf_empty)
next
  case False
  then show ?thesis
    using fcfs_result[OF False, of cs] spn_result[OF False, of cs]
      hrrn_result[OF assms(1) False, of cs] rr_result[OF assms(2,1), of cs]
      srtf_result[OF assms(2,1) False, of cs]
    by (auto simp: returns_metrics_def)
qed

theorem division_error_only_on_empty_input_and_never_in_rr_witness:
  "valid_input scenario \<and> (0::int) < 2 \<and>
   returns_metrics (fcfs_scheduling scenario (1/2)) \<and> returns_metrics (spn_scheduling scenario (1/2)) \<and>
   returns_metrics (hrrn_scheduling scenario (1/2)) \<and> returns_metrics (srtf_scheduling scenario (1/2) 2) \<and>
   returns_metrics (rr_scheduling scenario (1/2) 2) \<and>
   valid_input [] \<and>
   division_error (fcfs_scheduling [] (1/2)) \<and> division_error (spn_scheduling [] (1/2)) \<and>
   division_error (hrrn_scheduling [] (1/2)) \<and> division_error (srtf_scheduling [] (1/2) 2) \<and>
   returns_metrics (rr_scheduling [] (1/2) 2)"
  using valid_scenario scenario_not_empty valid_input_empty
    division_error_only_on_empty_input_and_never_in_rr[OF valid_scenario, of 2 "1/2"]
    division_error_only_on_empty_input_and_never_in_rr[OF valid_input_empty, of 2 "1/2"]
  by simp

text \<open>
  The claim as stated fails for RR, which guards each division: on the empty list it
  returns the averages 0 and raises nothing.
\<close>

theorem rr_returns_zero_averages_on_empty_input:
  "rr_scheduling [] 0 1 =
     Some (Inr \<lparr>gantt = [],
                result_metrics =
                  \<lparr>avg_waiting_time = 0, avg_turnaround_time = 0, avg_response_time = 0,
                   all_waiting_time = [], all_turnaround_time = [], all_response_time = []\<rparr>,
                objects = [], caller_list = []\<rparr>)
   \<and> \<not> division_error (rr_scheduling [] 0 1)"
  by code_simp

section \<open>The caller's list\<close>

text \<open>
  C8, as amended.  On valid input and with a positive quantum, each engine returns and
  leaves every dictionary with the id, burst time and arrival time it came with; it
  does change the list it was handed: FCFS leaves it sorted by arrival time (a stable
  sort), SPN, HRRN and SRTF leave it empty, and RR leaves its order as it was.
\<close>

theorem engines_keep_static_keys_and_change_the_list:
  assumes "valid_input ps" "ps \<noteq> []" "0 < q"
  shows "left_behind ps (sort_key (\<lambda>r. at_time (ps ! r)) [0..<length ps]) (fcfs_scheduling ps cs) \<and>
         left_behind ps [] (spn_scheduling ps cs) \<and>
         left_behind ps [] (hrrn_scheduling ps cs) \<and>
         left_behind ps [0..<length ps] (rr_scheduling ps cs q) \<and>
         left_behind ps [] (srtf_scheduling ps cs q)"
proof -
  have "left_behind ps cl r"
    if "\<exists>out. r = Some (Inr out) \<and> tracked ps [] (objects out) \<and> caller_list out = cl" for r cl
    using that by (auto simp: left_behind_def dest: tracked_final(1))
  then show ?thesis
    using fcfs_result[OF assms(2), of cs] spn_result[OF assms(2), of cs]
      hrrn_result[OF assms(1,2), of cs] rr_result[OF assms(3,1), of cs]
      srtf_result[OF assms(3,1,2), of cs]
    by blast
qed

theorem engines_keep_static_keys_and_change_the_list_witness:
  "valid_input scenario \<and> scenario \<noteq> [] \<and> (0::int) < 2 \<and>
   left_behind scenario [0, 1, 2] (fcfs_scheduling scenario (1/2)) \<and>
   left_behind scenario [] (spn_scheduling scenario (1/2)) \<and>
   left_behind scenario [] (hrrn_scheduling scenario (1/2)) \<and>
   left_behind scenario [0, 1, 2] (rr_scheduling scenario (1/2) 2) \<and>
   left_behind scenario [] (srtf_scheduling scenario (1/2) 2)"
proof -
  have l: "[0..<length scenario] = [0, 1, 2]" by (simp add: scenario_def upt_rec)
  have "sort_key (\<lambda>r. at_time (scenario ! r)) [0, 1, 2] = [0, 1, 2]"
    by (simp add: scenario_def new_process_def)
  with l show ?thesis
    using valid_scenario scenario_not_empty
      engines_keep_static_keys_and_change_the_list[OF valid_scenario scenario_not_empty, of 2 "1/2"]
    by simp
qed

text \<open>
  The claim as stated fails: FCFS on the list of A (burst 2, arrival 1) and B (burst 3,
  arrival 0) leaves the list as B, A with response, waiting and turnaround times
  overwritten, and SPN leaves it empty.
\<close>

theorem fcfs_reorders_and_overwrites_the_callers_list:
  "map_option (map_sum id list_after) (fcfs_scheduling [new_process ''A'' 2 1, new_process ''B'' 3 0] 0) =
     Some (Inr [\<lparr>pid = ''B'', cbt = 3, at_time = 0, remaining_time = 3, waiting_time = 0,
                 turnaround_time = 3, response_time = 0, response_ratio = None\<rparr>,
                \<lparr>pid = ''A'', cbt = 2, at_time = 1, remaining_time = 2, waiting_time = 2,
                 turnaround_time = 4, response_time = 2, response_ratio = None\<rparr>])
   \<and> map_option (map_sum id list_after) (fcfs_scheduling [new_process ''A'' 2 1, new_process ''B'' 3 0] 0)
     \<noteq> Some (Inr [new_process ''A'' 2 1, new_process ''B'' 3 0])
   \<and> map_option (map_sum id list_after) (spn_scheduling [new_process ''A'' 2 1, new_process ''B'' 3 0] 0)
     = Some (Inr [])"
  by code_simp

section \<open>Selection in SPN and HRRN\<close>

text \<open>
  C5, as amended.  At a decision point of SPN with an eligible process, the process
  dispatched is eligible, no eligible process has a smaller burst time, and every
  eligible process standing before it in \<open>processes\<close> has a strictly larger one: a tie
  is broken by the order of the list alone, the arrival time playing no part.  The
  process is taken out of \<open>processes\<close>, whose order is otherwise kept, so that this
  order is the one of the input.
\<close>

theorem spn_dispatches_first_shortest_eligible:
  assumes "eligible s \<noteq> []"
  shows "\<exists>sel us vs.
      processes s = us @ sel # vs \<and> sel \<in> set (eligible s) \<and>
      (\<forall>r\<in>set (eligible s). cbt (store s ! sel) \<le> cbt (store s ! r)) \<and>
      (\<forall>r\<in>set us. r \<in> set (eligible s) \<longrightarrow> cbt (store s ! sel) < cbt (store s ! r)) \<and>
      spn_body cs s = Inr (dispatch cs sel (s\<lparr>processes := us @ vs\<rparr>))"
proof -
  from assms obtain e es where el: "eligible s = e # es" by (cases "eligible s") auto
  define P where "P = (\<lambda>r. of_int (at_time (store s ! r)) \<le> current_time s)"
  define sel where "sel = py_min (\<lambda>r. cbt (store s ! r)) e es"
  have f: "filter P (processes s) = e # es" using el by (simp add: eligible_def P_def)
  have elP: "r \<in> set (eligible s) \<longleftrightarrow> r \<in> set (processes s) \<and> P r" for r
    by (simp add: eligible_def P_def)
  have val: "P r = P r' \<and> cbt (store s ! r) = cbt (store s ! r')"
    if "r \<in> set (processes s)" "r' \<in> set (processes s)" "store s ! r = store s ! r'" for r r'
    using that by (simp add: P_def)
  from select_remove[OF f val]
  obtain us vs where sr: "processes s = us @ sel # vs"
    "list_remove (store s) (store s ! sel) (processes s) = Some (us @ vs)" "P sel"
    "\<forall>r\<in>set us. P r \<longrightarrow> cbt (store s ! sel) < cbt (store s ! r)"
    "\<forall>r\<in>set vs. P r \<longrightarrow> cbt (store s ! sel) \<le> cbt (store s ! r)"
    unfolding sel_def by blast
  have selE: "sel \<in> set (eligible s)" using sr(1,3) by (simp add: elP)
  have "cbt (store s ! sel) \<le> cbt (store s ! r)" if "r \<in> set (eligible s)" for r
  proof -
    from that have r: "r \<in> set (processes s)" "P r" by (simp_all add: elP)
    with sr(1) have "r \<in> set us \<or> r = sel \<or> r \<in> set vs" by auto
    with sr(4,5) r(2) show ?thesis by auto
  qed
  moreover have "\<forall>r\<in>set us. r \<in> set (eligible s) \<longrightarrow> cbt (store s ! sel) < cbt (store s ! r)"
    using sr(4) by (simp add: elP)
  moreover have "spn_body cs s = Inr (dispatch cs sel (s\<lparr>processes := us @ vs\<rparr>))"
    using el sr(2) by (simp add: spn_body_def sel_def[symmetric])
  ultimately show ?thesis using sr(1) selE by blast
qed

text \<open>The state of SPN on L, A, B after L has run.\<close>

theorem spn_dispatches_first_shortest_eligible_witness:
  "eligible spn_tie_after_L \<noteq> [] \<and>
   (\<exists>sel us vs.
      processes spn_tie_after_L = us @ sel # vs \<and> sel \<in> set (eligible spn_tie_after_L) \<and>
      (\<forall>r\<in>set (eligible spn_tie_after_L).
          cbt (store spn_tie_after_L ! sel) \<le> cbt (store spn_tie_after_L ! r)) \<and>
      (\<forall>r\<in>set us. r \<in> set (eligible spn_tie_after_L) \<longrightarrow>
          cbt (store spn_tie_after_L ! sel) < cbt (store spn_tie_after_L ! r)) \<and>
      spn_body 0 spn_tie_after_L = Inr (dispatch 0 sel (spn_tie_after_L\<lparr>processes := us @ vs\<rparr>)))"
proof -
  have h: "eligible spn_tie_after_L \<noteq> []" by code_simp
  from h spn_dispatches_first_shortest_eligible[OF h, of 0] show ?thesis by blast
qed

text \<open>
  The claim as stated fails: after L, at time 1, A and B are eligible with the same
  burst time; B has arrived earlier and is the claimed choice, but A, which stands
  first in the list, is dispatched.
\<close>

theorem spn_breaks_a_tie_by_list_order_not_by_arrival:
  "spn_body 0 (init_sim spn_tie) = Inr spn_tie_after_L \<and>
   current_time spn_tie_after_L = 1 \<and>
   eligible spn_tie_after_L = [1, 2] \<and>
   spn_body 0 spn_tie_after_L = Inr (dispatch 0 1 (spn_tie_after_L\<lparr>processes := [2]\<rparr>)) \<and>
   \<not> claimed_spn_choice spn_tie_after_L 1 \<and>
   claimed_spn_choice spn_tie_after_L 2 \<and>
   map_option (map_sum id gantt) (spn_scheduling spn_tie 0) =
     Some (Inr [(''L'', 0, 1), (''A'', 1, 3), (''B'', 3, 5)])"
  by code_simp

text \<open>
  C6, as amended.  At a decision point of HRRN with an eligible process, when the
  processes not yet run are dictionaries of the store with positive burst times, the process
  dispatched is eligible, no eligible process has a larger response ratio, and every
  eligible process standing before it in \<open>processes\<close> has a strictly smaller one: a tie
  is broken by the order of the list alone, neither burst time nor arrival time playing
  a part.
\<close>

theorem hrrn_dispatches_first_highest_ratio:
  assumes ok: "list_all (\<lambda>r. r < length (store s) \<and> 0 < cbt (store s ! r)) (processes s)"
    and el: "eligible s \<noteq> []"
  shows "\<exists>sel us vs st.
      processes s = us @ sel # vs \<and> sel \<in> set (eligible s) \<and>
      (\<forall>r\<in>set (eligible s).
          ratio_at (current_time s) (store s ! r) \<le> ratio_at (current_time s) (store s ! sel)) \<and>
      (\<forall>r\<in>set us. r \<in> set (eligible s) \<longrightarrow>
          ratio_at (current_time s) (store s ! r) < ratio_at (current_time s) (store s ! sel)) \<and>
      set_ratios (current_time s) (eligible s) (store s) = Inr st \<and>
      hrrn_body cs s = Inr (dispatch cs sel (s\<lparr>store := st, processes := us @ vs\<rparr>))"
proof -
  from el obtain e es where el': "eligible s = e # es" by (cases "eligible s") auto
  have bnd: "\<forall>r\<in>set (processes s). r < length (store s)"
    using ok by (simp add: list_all_iff)
  have nz: "\<forall>r\<in>set (processes s). cbt (store s ! r) \<noteq> 0"
    using ok by (auto simp: list_all_iff)
  from hrrn_select[OF bnd nz el'] obtain st sel us vs where
    h: "set_ratios (current_time s) (e # es) (store s) = Inr st"
       "sel = py_max (\<lambda>r. ratio_key (st ! r)) e es"
       "processes s = us @ sel # vs"
       "list_remove st (st ! sel) (processes s) = Some (us @ vs)"
       "sel \<in> set (eligible s)"
       "\<forall>r\<in>set us. r \<in> set (eligible s) \<longrightarrow>
          ratio_at (current_time s) (store s ! r) < ratio_at (current_time s) (store s ! sel)"
       "\<forall>r\<in>set vs. r \<in> set (eligible s) \<longrightarrow>
          ratio_at (current_time s) (store s ! r) \<le> ratio_at (current_time s) (store s ! sel)"
    by blast
  have "ratio_at (current_time s) (store s ! r) \<le> ratio_at (current_time s) (store s ! sel)"
    if "r \<in> set (eligible s)" for r
  proof -
    from that have "r \<in> set (processes s)" by (simp add: eligible_def)
    with h(3) have "r \<in> set us \<or> r = sel \<or> r \<in> set vs" by auto
    with h(6,7) that show ?thesis by auto
  qed
  moreover have "hrrn_body cs s = Inr (dispatch cs sel (s\<lparr>store := st, processes := us @ vs\<rparr>))"
    using el' h(1,4) by (simp add: hrrn_body_def h(2)[symmetric])
  ultimately show ?thesis using h(1,3,5,6) el' by auto
qed

theorem hrrn_dispatches_first_highest_ratio_witness:
  "list_all (\<lambda>r. r < length (store (init_sim hrrn_tie)) \<and> 0 < cbt (store (init_sim hrrn_tie) ! r))
     (processes (init_sim hrrn_tie)) \<and>
   eligible (init_sim hrrn_tie) \<noteq> [] \<and>
   (\<exists>sel us vs st.
      processes (init_sim hrrn_tie) = us @ sel # vs \<and> sel \<in> set (eligible (init_sim hrrn_tie)) \<and>
      (\<forall>r\<in>set (eligible (init_sim hrrn_tie)).
          ratio_at (current_time (init_sim hrrn_tie)) (store (init_sim hrrn_tie) ! r)
          \<le> ratio_at (current_time (init_sim hrrn_tie)) (store (init_sim hrrn_tie) ! sel)) \<and>
      (\<forall>r\<in>set us. r \<in> set (eligible (init_sim hrrn_tie)) \<longrightarrow>
          ratio_at (current_time (init_sim hrrn_tie)) (store (init_sim hrrn_tie) ! r)
          < ratio_at (current_time (init_sim hrrn_tie)) (store (init_sim hrrn_tie) ! sel)) \<and>
      set_ratios (current_time (init_sim hrrn_tie)) (eligible (init_sim hrrn_tie))
        (store (init_sim hrrn_tie)) = Inr st \<and>
      hrrn_body 0 (init_sim hrrn_tie) =
        Inr (dispatch 0 sel ((init_sim hrrn_tie)\<lparr>store := st, processes := us @ vs\<rparr>)))"
proof -
  have b: "list_all (\<lambda>r. r < length (store (init_sim hrrn_tie)) \<and>
                        0 < cbt (store (init_sim hrrn_tie) ! r))
             (processes (init_sim hrrn_tie))"
    by code_simp
  have e: "eligible (init_sim hrrn_tie) \<noteq> []" by code_simp
  from b e hrrn_dispatches_first_highest_ratio[OF b e, of 0] show ?thesis by blast
qed

text \<open>
  The claim as stated fails: at time 0, A (burst 4) and B (burst 2) both have ratio 1;
  B is the claimed choice, but A, which stands first in the list, is dispatched.
\<close>

theorem hrrn_breaks_a_tie_by_list_order_not_by_burst:
  "eligible (init_sim hrrn_tie) = [0, 1] \<and>
   ratio_at 0 (hrrn_tie ! 0) = 1 \<and> ratio_at 0 (hrrn_tie ! 1) = 1 \<and>
   map_sum id processes (hrrn_body 0 (init_sim hrrn_tie)) = Inr [1] \<and>
   \<not> claimed_hrrn_choice (init_sim hrrn_tie) 0 \<and>
   claimed_hrrn_choice (init_sim hrrn_tie) 1 \<and>
   map_option (map_sum id gantt) (hrrn_scheduling hrrn_tie 0) =
     Some (Inr [(''A'', 0, 4), (''B'', 4, 6)])"
  by code_simp

section \<open>The completion point\<close>

text \<open>
  What the bodies of the loops do in a state where process \<open>r\<close> is the only eligible
  one, or the head of the queue of RR, and runs its whole burst within the quantum.
\<close>

lemma dispatch_times:
  assumes "r < length (store s)"
  shows "turnaround_time (store (dispatch cs r s) ! r) =
           current_time s + of_int (cbt (store s ! r)) - of_int (at_time (store s ! r))"
    and "waiting_time (store (dispatch cs r s) ! r) = current_time s - of_int (at_time (store s ! r))"
  using assms by (simp_all add: dispatch_def account_def set_response_def Let_def)

lemma finalize_slice_times:
  assumes "r < length (store s)"
  shows "turnaround_time (store (finalize r (run_slice cs q r s)) ! r) =
           current_time s + of_int (min q (remaining_time (store s ! r))) + cs
             - of_int (at_time (store s ! r))"
    and "waiting_time (store (finalize r (run_slice cs q r s)) ! r) =
           current_time s + of_int (min q (remaining_time (store s ! r))) + cs
             - of_int (at_time (store s ! r)) - of_int (cbt (store s ! r))"
    and "remaining_time (store (run_slice cs q r s) ! r) =
           remaining_time (store s ! r) - min q (remaining_time (store s ! r))"
    and "gantt_data (finalize r (run_slice cs q r s)) =
           gantt_data s @ [(pid (store s ! r), current_time s,
                            current_time s + of_int (min q (remaining_time (store s ! r))))]"
  using assms
  by (simp_all add: finalize_def run_slice_def account_def set_response_def Let_def)

lemma finalize_admit:
  "store (finalize r (admit s)) = store (finalize r s)"
  "gantt_data (finalize r (admit s)) = gantt_data (finalize r s)"
  by (simp_all add: finalize_def admit_def account_def Let_def)

lemma only_eligible:
  assumes "eligible s = [r]"
  shows "\<exists>us vs. processes s = us @ r # vs \<and> r \<notin> set us \<and>
           (\<forall>u\<in>set us. current_time s < of_int (at_time (store s ! u))) \<and>
           of_int (at_time (store s ! r)) \<le> current_time s"
proof -
  have f: "filter (\<lambda>r. of_int (at_time (store s ! r)) \<le> current_time s) (processes s) = [r]"
    using assms by (simp add: eligible_def)
  then obtain us vs where "processes s = us @ r # vs"
    "\<forall>u\<in>set us. \<not> of_int (at_time (store s ! u)) \<le> current_time s"
    "of_int (at_time (store s ! r)) \<le> current_time s"
    by (auto simp: filter_eq_Cons_iff)
  then show ?thesis by (intro exI[of _ us] exI[of _ vs]) auto
qed


lemma spn_body_only:
  assumes "eligible s = [r]"
  shows "\<exists>us vs. processes s = us @ r # vs \<and>
           spn_body cs s = Inr (dispatch cs r (s\<lparr>processes := us @ vs\<rparr>))"
proof -
  from only_eligible[OF assms] obtain us vs where
    o: "processes s = us @ r # vs" "\<forall>u\<in>set us. current_time s < of_int (at_time (store s ! u))"
       "of_int (at_time (store s ! r)) \<le> current_time s" by blast
  have "\<forall>u\<in>set us. store s ! u \<noteq> store s ! r" using o(2,3) by auto
  then have "list_remove (store s) (store s ! r) (us @ r # vs) = Some (us @ vs)"
    by (rule list_remove_split)
  then have "spn_body cs s = Inr (dispatch cs r (s\<lparr>processes := us @ vs\<rparr>))"
    using assms o(1) by (simp add: spn_body_def)
  with o(1) show ?thesis by blast
qed

lemma hrrn_body_only:
  assumes el: "eligible s = [r]" and nz: "cbt (store s ! r) \<noteq> 0"
  shows "\<exists>us vs p. processes s = us @ r # vs \<and> plain p = plain (store s ! r) \<and>
           hrrn_body cs s =
             Inr (dispatch cs r (s\<lparr>store := (store s)[r := p], processes := us @ vs\<rparr>))"
proof -
  from only_eligible[OF el] obtain us vs where
    o: "processes s = us @ r # vs" "r \<notin> set us"
       "\<forall>u\<in>set us. current_time s < of_int (at_time (store s ! u))"
       "of_int (at_time (store s ! r)) \<le> current_time s" by blast
  define p where "p = (store s ! r)\<lparr>response_ratio :=
      Some ((current_time s - of_int (at_time (store s ! r)) + of_int (cbt (store s ! r)))
            / of_int (cbt (store s ! r)))\<rparr>"
  define st where "st = (store s)[r := p]"
  have sr: "set_ratios (current_time s) [r] (store s) = Inr st"
    using nz by (simp add: st_def p_def Let_def)
  have pl: "plain p = plain (store s ! r)" by (simp add: p_def plain_def)
  have atr: "at_time (st ! r) = at_time (store s ! r)"
    by (cases "r < length (store s)") (simp_all add: st_def p_def list_update_beyond)
  have "st ! u \<noteq> st ! r" if "u \<in> set us" for u
  proof -
    from that o(2) have "u \<noteq> r" by auto
    then have "st ! u = store s ! u" by (simp add: st_def)
    with o(3,4) that atr show ?thesis by auto
  qed
  then have "list_remove st (st ! r) (us @ r # vs) = Some (us @ vs)"
    by (intro list_remove_split) blast
  then have "hrrn_body cs s = Inr (dispatch cs r (s\<lparr>store := st, processes := us @ vs\<rparr>))"
    using el sr o(1) by (simp add: hrrn_body_def)
  with o(1) pl show ?thesis unfolding st_def by blast
qed

lemma rr_body_head:
  assumes "process_queue s = r # rest" "r < length (store s)"
    "remaining_time (store s ! r) \<le> q"
  shows "rr_body cs q s = Inr (finalize r (admit (run_slice cs q r (s\<lparr>process_queue := rest\<rparr>))))"
proof -
  have "remaining_time (store (run_slice cs q r (s\<lparr>process_queue := rest\<rparr>)) ! r) = 0"
    using assms(2,3) by (simp add: finalize_slice_times(3) min_def)
  then show ?thesis using assms(1) by (simp add: rr_body_def admit_fields Let_def)
qed

lemma srtf_body_only:
  assumes el: "eligible s = [r]" and b: "r < length (store s)"
    and rem: "0 < remaining_time (store s ! r)" "remaining_time (store s ! r) \<le> q"
  shows "\<exists>us vs. processes s = us @ r # vs \<and>
           srtf_body cs q s =
             Inr ((finalize r (run_slice cs q r s))
                    \<lparr>completed := completed s @ [r], processes := us @ vs\<rparr>)"
proof -
  from only_eligible[OF el] obtain us vs where
    o: "processes s = us @ r # vs" "r \<notin> set us"
       "\<forall>u\<in>set us. current_time s < of_int (at_time (store s ! u))"
       "of_int (at_time (store s ! r)) \<le> current_time s" by blast
  define s1 where "s1 = run_slice cs q r s"
  define s2 where "s2 = finalize r s1"
  have r1: "remaining_time (store s1 ! r) = 0"
    using b rem by (simp add: s1_def finalize_slice_times(3) min_def)
  from run_slice_store[of cs q r s] obtain p2 where
    p2: "store s1 = (store s)[r := p2]" "at_time p2 = at_time (store s ! r)"
    unfolding s1_def by auto
  from finalize_store[of r s1] obtain p3 where
    p3: "store s2 = (store s1)[r := p3]" "at_time p3 = at_time (store s1 ! r)"
    unfolding s2_def by auto
  have st2: "store s2 = (store s)[r := p3]" using p2(1) p3(1) by simp
  have at3: "at_time p3 = at_time (store s ! r)" using p3(2) p2 b by simp
  have "store s2 ! u \<noteq> store s2 ! r" if "u \<in> set us" for u
  proof -
    from that o(2) have "u \<noteq> r" by auto
    then have "store s2 ! u = store s ! u" by (simp add: st2)
    moreover have "store s2 ! r = p3" using b by (simp add: st2)
    ultimately show ?thesis using o(3,4) that at3 by auto
  qed
  then have "list_remove (store s2) (store s2 ! r) (us @ r # vs) = Some (us @ vs)"
    by (intro list_remove_split) blast
  moreover have "processes s2 = us @ r # vs" "completed s2 = completed s"
    using o(1) by (simp_all add: s2_def s1_def finalize_fields run_slice_fields)
  ultimately have "srtf_body cs q s = Inr (s2\<lparr>completed := completed s @ [r], processes := us @ vs\<rparr>)"
    using el r1 by (simp add: srtf_body_def s1_def[symmetric] s2_def[symmetric] Let_def)
  with o(1) show ?thesis unfolding s2_def s1_def by blast
qed

text \<open>
  C10.  Let \<open>r\<close> be the only eligible process, about to run its final slice: what is
  left of it lies within the quantum.  FCFS, SPN and HRRN run \<open>r\<close> for its burst and
  finalize the turnaround time as the end of that interval less the arrival time.  RR
  (with \<open>r\<close> at the head of its queue) and SRTF run \<open>r\<close> for what is left of it and
  finalize the turnaround time as the end of that interval plus the context switch time
  less the arrival time.  In both groups the waiting time is the turnaround time less
  the burst.  Hence, when the whole burst is left, so that the intervals are the same,
  the turnaround time and the waiting time of the second group exceed those of the
  first by the context switch time.
\<close>

theorem context_switch_is_in_the_turnaround_of_rr_and_srtf_only:
  assumes el: "eligible s = [r]"
    and b: "r < length (store s)"
    and burst: "0 < cbt (store s ! r)"
    and final: "0 < remaining_time (store s ! r)" "remaining_time (store s ! r) \<le> q"
  shows "slice_finalized s r (cbt (store s ! r)) 0 (fcfs_body cs r s) \<and>
         (\<exists>s'. spn_body cs s = Inr s' \<and> slice_finalized s r (cbt (store s ! r)) 0 s') \<and>
         (\<exists>s'. hrrn_body cs s = Inr s' \<and> slice_finalized s r (cbt (store s ! r)) 0 s') \<and>
         (\<exists>s'. rr_body cs q (s\<lparr>process_queue := r # rest, processes := others\<rparr>) = Inr s' \<and>
               slice_finalized s r (remaining_time (store s ! r)) cs s') \<and>
         (\<exists>s'. srtf_body cs q s = Inr s' \<and>
               slice_finalized s r (remaining_time (store s ! r)) cs s') \<and>
         (remaining_time (store s ! r) = cbt (store s ! r) \<longrightarrow>
            (\<forall>a b. slice_finalized s r (cbt (store s ! r)) 0 a \<and>
                   slice_finalized s r (remaining_time (store s ! r)) cs b \<longrightarrow>
                   gantt_data b = gantt_data a \<and>
                   turnaround_time (store b ! r) = turnaround_time (store a ! r) + cs \<and>
                   waiting_time (store b ! r) = waiting_time (store a ! r) + cs))"
proof -
  from only_eligible[OF el] have arrived: "of_int (at_time (store s ! r)) \<le> current_time s"
    by blast
  have d: "slice_finalized s r (cbt (store s ! r)) 0 (dispatch cs r s')"
    if "store s' = store s" "current_time s' = current_time s" "gantt_data s' = gantt_data s" for s'
    using that b by (simp add: slice_finalized_def dispatch_times dispatch_fields)
  have fcfs: "slice_finalized s r (cbt (store s ! r)) 0 (fcfs_body cs r s)"
    using arrived by (simp add: fcfs_body_def Let_def d)
  from spn_body_only[OF el, of cs] obtain us vs where
    "spn_body cs s = Inr (dispatch cs r (s\<lparr>processes := us @ vs\<rparr>))" by blast
  then have spn: "\<exists>s'. spn_body cs s = Inr s' \<and> slice_finalized s r (cbt (store s ! r)) 0 s'"
    by (simp add: d)
  from burst have nz: "cbt (store s ! r) \<noteq> 0" by simp
  from hrrn_body_only[OF el nz, of cs] obtain us vs p where
    h: "plain p = plain (store s ! r)"
       "hrrn_body cs s = Inr (dispatch cs r (s\<lparr>store := (store s)[r := p], processes := us @ vs\<rparr>))"
    by blast
  define sh where "sh = s\<lparr>store := (store s)[r := p], processes := us @ vs\<rparr>"
  have shr: "store sh ! r = p" "r < length (store sh)" "current_time sh = current_time s"
    "gantt_data sh = gantt_data s" using b by (simp_all add: sh_def)
  have "slice_finalized s r (cbt (store s ! r)) 0 (dispatch cs r sh)"
    using shr plain_fields(1,2,3)[OF h(1)]
    by (simp add: slice_finalized_def dispatch_times dispatch_fields)
  with h(2) have hrrn: "\<exists>s'. hrrn_body cs s = Inr s' \<and> slice_finalized s r (cbt (store s ! r)) 0 s'"
    by (simp add: sh_def)
  have m: "min q (remaining_time (store s ! r)) = remaining_time (store s ! r)"
    using final(2) by (simp add: min_def)
  have f: "slice_finalized s r (remaining_time (store s ! r)) cs (finalize r (run_slice cs q r s'))"
    if "store s' = store s" "current_time s' = current_time s" "gantt_data s' = gantt_data s" for s'
    using that b m by (simp add: slice_finalized_def finalize_slice_times)
  define sr where "sr = s\<lparr>process_queue := r # rest, processes := others\<rparr>"
  have "rr_body cs q sr = Inr (finalize r (admit (run_slice cs q r (sr\<lparr>process_queue := rest\<rparr>))))"
    by (rule rr_body_head) (use b final in \<open>simp_all add: sr_def\<close>)
  moreover have "slice_finalized s r (remaining_time (store s ! r)) cs
       (finalize r (admit (run_slice cs q r (sr\<lparr>process_queue := rest\<rparr>))))"
    using f[of "sr\<lparr>process_queue := rest\<rparr>"]
    by (simp add: slice_finalized_def finalize_admit sr_def)
  ultimately have rr: "\<exists>s'. rr_body cs q sr = Inr s' \<and>
      slice_finalized s r (remaining_time (store s ! r)) cs s'" by simp
  from srtf_body_only[OF el b final, of cs] obtain us vs where
    "srtf_body cs q s = Inr ((finalize r (run_slice cs q r s))
                    \<lparr>completed := completed s @ [r], processes := us @ vs\<rparr>)" by auto
  moreover have "slice_finalized s r (remaining_time (store s ! r)) cs
        ((finalize r (run_slice cs q r s))\<lparr>completed := completed s @ [r], processes := us @ vs\<rparr>)"
    using f[of s] by (simp add: slice_finalized_def)
  ultimately have srtf: "\<exists>s'. srtf_body cs q s = Inr s' \<and>
      slice_finalized s r (remaining_time (store s ! r)) cs s'" by simp
  have diff: "remaining_time (store s ! r) = cbt (store s ! r) \<longrightarrow>
            (\<forall>a b. slice_finalized s r (cbt (store s ! r)) 0 a \<and>
                   slice_finalized s r (remaining_time (store s ! r)) cs b \<longrightarrow>
                   gantt_data b = gantt_data a \<and>
                   turnaround_time (store b ! r) = turnaround_time (store a ! r) + cs \<and>
                   waiting_time (store b ! r) = waiting_time (store a ! r) + cs)"
    by (simp add: slice_finalized_def)
  from fcfs spn hrrn rr srtf diff show ?thesis unfolding sr_def by blast
qed

text \<open>
  P1 (burst 5, arrival 0) at the start, with context switch time 1/2 and quantum 5: SRTF
  and SPN run P1 for the same interval, and SRTF reports a turnaround and a waiting time
  larger by 1/2.
\<close>

theorem context_switch_is_in_the_turnaround_of_rr_and_srtf_only_witness:
  "eligible (init_sim [new_process ''P1'' 5 0]) = [0] \<and>
   0 < length (store (init_sim [new_process ''P1'' 5 0])) \<and>
   0 < cbt (store (init_sim [new_process ''P1'' 5 0]) ! 0) \<and>
   0 < remaining_time (store (init_sim [new_process ''P1'' 5 0]) ! 0) \<and>
   remaining_time (store (init_sim [new_process ''P1'' 5 0]) ! 0) \<le> 5 \<and>
   remaining_time (store (init_sim [new_process ''P1'' 5 0]) ! 0)
     = cbt (store (init_sim [new_process ''P1'' 5 0]) ! 0) \<and>
   (\<exists>a b. spn_body (1/2) (init_sim [new_process ''P1'' 5 0]) = Inr a \<and>
          srtf_body (1/2) 5 (init_sim [new_process ''P1'' 5 0]) = Inr b \<and>
          gantt_data b = gantt_data a \<and>
          turnaround_time (store b ! 0) = turnaround_time (store a ! 0) + 1/2 \<and>
          waiting_time (store b ! 0) = waiting_time (store a ! 0) + 1/2)"
proof -
  define s0 where "s0 = init_sim [new_process ''P1'' 5 0]"
  have a: "eligible s0 = [0]" unfolding s0_def by code_simp
  have b: "0 < length (store s0)" unfolding s0_def by code_simp
  have c: "0 < cbt (store s0 ! 0)" unfolding s0_def by code_simp
  have d: "0 < remaining_time (store s0 ! 0)" unfolding s0_def by code_simp
  have e: "remaining_time (store s0 ! 0) \<le> 5" unfolding s0_def by code_simp
  have f: "remaining_time (store s0 ! 0) = cbt (store s0 ! 0)" unfolding s0_def by code_simp
  note t = context_switch_is_in_the_turnaround_of_rr_and_srtf_only[OF a b c d e, of "1/2" "[]" "[]"]
  from t obtain x where x: "spn_body (1/2) s0 = Inr x"
    "slice_finalized s0 0 (cbt (store s0 ! 0)) 0 x" by blast
  from t obtain y where y: "srtf_body (1/2) 5 s0 = Inr y"
    "slice_finalized s0 0 (remaining_time (store s0 ! 0)) (1/2) y" by blast
  from t f x(2) y(2) have "gantt_data y = gantt_data x \<and>
      turnaround_time (store y ! 0) = turnaround_time (store x ! 0) + 1/2 \<and>
      waiting_time (store y ! 0) = waiting_time (store x ! 0) + 1/2" by blast
  with x(1) y(1) a b c d e f show ?thesis unfolding s0_def by blast
qed

section \<open>New arrivals in Round Robin\<close>

text \<open>
  When the pending list is sorted by arrival time, the block that admits new arrivals
  leaves no arrived process behind.
\<close>

lemma dropWhile_sorted_key:
  fixes key :: "'a \<Rightarrow> int"
  assumes "sorted (map key xs)"
  shows "\<forall>r\<in>set (dropWhile (\<lambda>r. of_int (key r) \<le> (t::rat)) xs). \<not> of_int (key r) \<le> t"
  using assms
proof (induction xs)
  case Nil
  then show ?case by simp
next
  case (Cons x xs)
  show ?case
  proof (cases "of_int (key x) \<le> t")
    case True
    from Cons.prems have "sorted (map key xs)" by simp
    from Cons.IH[OF this]
    have ih: "\<forall>r\<in>set (dropWhile (\<lambda>r. of_int (key r) \<le> t) xs). \<not> of_int (key r) \<le> t" .
    from True have "dropWhile (\<lambda>r. of_int (key r) \<le> t) (x # xs) =
        dropWhile (\<lambda>r. of_int (key r) \<le> t) xs" by simp
    with ih show ?thesis by (simp only:)
  next
    case False
    have "\<not> of_int (key r) \<le> t" if "r \<in> set xs" for r
    proof -
      from Cons.prems that have "key x \<le> key r" by simp
      then have "(of_int (key x) :: rat) \<le> of_int (key r)" by simp
      with False show ?thesis by linarith
    qed
    moreover from False have "dropWhile (\<lambda>r. of_int (key r) \<le> t) (x # xs) = x # xs" by simp
    ultimately show ?thesis using False by (simp only: set_simps) blast
  qed
qed

lemma admit_sorted:
  assumes "sorted (map (\<lambda>r. at_time (store s ! r)) (processes s))"
  shows "arrivals_admitted (admit s)"
proof -
  have eqs: "store (admit s) = store s" "current_time (admit s) = current_time s"
    "processes (admit s) =
       dropWhile (\<lambda>r. of_int (at_time (store s ! r)) \<le> current_time s) (processes s)"
    by (simp_all add: admit_def Let_def)
  show ?thesis
    unfolding arrivals_admitted_def list_ex_iff eqs
    using dropWhile_sorted_key[OF assms, of "current_time s"] by blast
qed

text \<open>
  C3.  After every slice of RR, every pending process that has arrived should be in
  the queue.  RR never sorts the list it is handed and looks at the head of the pending
  list only.  For X (arrival 10), Y (arrival 1), Z (arrival 0), entered in this order,
  the slice of Z ends at time 1, Y has arrived, yet the queue is empty and Y stays
  pending behind X; the processor idles until 10, and Y runs last, from 11.
\<close>

theorem rr_leaves_an_arrived_process_pending:
  "map_sum id (\<lambda>s. (current_time s, process_queue s, processes s))
       (rr_body 0 2 (rr_start rr_unsorted)) = Inr (1, [], [0, 1]) \<and>
   at_time (rr_unsorted ! 1) = 1 \<and>
   map_sum id arrivals_admitted (rr_body 0 2 (rr_start rr_unsorted)) = Inr False \<and>
   map_option (map_sum id gantt) (rr_scheduling rr_unsorted 0 2) =
     Some (Inr [(''Z'', 0, 1), (''X'', 10, 11), (''Y'', 11, 12)])"
  by code_simp

section \<open>Averages and the per-process lists\<close>

text \<open>
  C1.  Each returned average should be the mean of the returned list of the same name.
  The engines append the turnaround time to \<open>all_response_time\<close> and the response time
  to \<open>all_turnaround_time\<close>.  For the single process P1 (burst 5, arrival 0) and no
  context switch time, FCFS returns the average turnaround time 5 together with the list
  \<open>all_turnaround_time = [0]\<close>, whose mean is 0: the property fails.
\<close>

theorem fcfs_turnaround_average_differs_from_list_mean:
  "fcfs_scheduling [new_process ''P1'' 5 0] 0 =
     Some (Inr \<lparr>gantt = [(''P1'', 0, 5)],
                result_metrics =
                  \<lparr>avg_waiting_time = 0, avg_turnaround_time = 5, avg_response_time = 0,
                   all_waiting_time = [0], all_turnaround_time = [0],
                   all_response_time = [5]\<rparr>,
                objects = [\<lparr>pid = ''P1'', cbt = 5, at_time = 0, remaining_time = 5,
                            waiting_time = 0, turnaround_time = 5, response_time = 0,
                            response_ratio = None\<rparr>],
                caller_list = [0]\<rparr>)
   \<and> \<not> averages_are_means (fcfs_scheduling [new_process ''P1'' 5 0] 0)"
  by code_simp

section \<open>The quantum check\<close>

text \<open>
  With quantum 0 every slice of SRTF has length 0: the remaining time of the only process
  stays 5, the process stays in \<open>processes\<close>, and the loop goes on.
\<close>

lemma srtf_stuck:
  "py_while srtf_cond (srtf_body 0 0) (init_sim [new_process ''P1'' 5 0]) = None"
proof (rule py_while_diverges[where I = "\<lambda>s. processes s = [0] \<and> length (store s) = 1 \<and>
      at_time (store s ! 0) = 0 \<and> remaining_time (store s ! 0) = 5 \<and> 0 \<le> current_time s"])
  show "processes (init_sim [new_process ''P1'' 5 0]) = [0] \<and>
    length (store (init_sim [new_process ''P1'' 5 0])) = 1 \<and>
    at_time (store (init_sim [new_process ''P1'' 5 0]) ! 0) = 0 \<and>
    remaining_time (store (init_sim [new_process ''P1'' 5 0]) ! 0) = 5 \<and>
    0 \<le> current_time (init_sim [new_process ''P1'' 5 0])"
    by (simp add: init_sim_def new_process_def)
next
  fix s :: sim
  assume I: "processes s = [0] \<and> length (store s) = 1 \<and>
      at_time (store s ! 0) = 0 \<and> remaining_time (store s ! 0) = 5 \<and> 0 \<le> current_time s"
  then have el: "eligible s = [0]" by (simp add: eligible_def)
  have body: "srtf_body 0 0 s = Inr (run_slice 0 0 0 s)"
    using I by (simp add: srtf_body_def el run_slice_def set_response_def Let_def)
  have "srtf_cond s" using I by (simp add: srtf_cond_def)
  moreover have "processes (run_slice 0 0 0 s) = [0] \<and> length (store (run_slice 0 0 0 s)) = 1 \<and>
      at_time (store (run_slice 0 0 0 s) ! 0) = 0 \<and> remaining_time (store (run_slice 0 0 0 s) ! 0) = 5
      \<and> 0 \<le> current_time (run_slice 0 0 0 s)"
    using I by (simp add: run_slice_def set_response_def Let_def)
  ultimately show "srtf_cond s \<and> (\<exists>s'. srtf_body 0 0 s = Inr s' \<and> (processes s' = [0] \<and> length (store s') = 1 \<and>
      at_time (store s' ! 0) = 0 \<and> remaining_time (store s' ! 0) = 5 \<and> 0 \<le> current_time s'))"
    using body by simp
qed

text \<open>
  C4.  A quantum that is not positive should make both RR and SRTF fail before the
  simulation starts.  RR does raise \<open>ValueError\<close>.  SRTF has no such check: for the
  single process P1 (burst 5, arrival 0) and quantum 0 it raises nothing and never
  returns.
\<close>

theorem srtf_accepts_quantum_zero_and_never_returns:
  "rr_scheduling [new_process ''P1'' 5 0] 0 0 = Some (Inl ValueError) \<and>
   srtf_scheduling [new_process ''P1'' 5 0] 0 0 = None"
  by (simp add: rr_scheduling_def srtf_scheduling_def after_loop_def srtf_stuck)

end
